theory Spec2Isabelle
  imports Main "HOL-Library.Word"
begin

unbundle bit_operations_syntax

section \<open>Unmanaged GC memory helpers (GCMemoryHelpers.cpp)\<close>

subsection \<open>Build configuration, memory and the event log\<close>

text \<open>
  The file is compiled under two macros that it does not define itself: the ASSERT
  macro (active in debug builds only, where a failed assertion aborts) and
  POINTER_SIZE (4 or 8, the size in bytes of UIntNative and of a pointer). Both are
  fields of the build configuration.
\<close>

record build =
  DEBUG :: bool
  POINTER_SIZE :: nat

definition valid_build :: "build \<Rightarrow> bool" where
  "valid_build b = (POINTER_SIZE b = 4 \<or> POINTER_SIZE b = 8)"

text \<open>
  An address is a natural number and the null pointer is address 0; a pointer of
  the machine holds an address below \<open>2 ^ (8 * POINTER_SIZE)\<close>. Memory maps every
  address to a byte. The loops step through a range address by address. The one
  pointer sum that the source computes itself, \<open>pSrc + cbDest\<close> in the direction test
  of the move, wraps at the width of a pointer as the machine computes it.

  The log lists, in program order, what a call did: which inlined primitive it
  entered, every byte-sized and every pointer-sized store (by its first address), and
  every range handed to the write-barrier recorder.
\<close>

type_synonym addr = nat
type_synonym byte = "8 word"

datatype primitive = FillMemory | ForwardCopy | BackwardCopy

datatype event =
    Enter primitive
  | StoreByte addr
  | StoreWord addr
  | Barrier addr nat

record heap =
  memory :: "addr \<Rightarrow> byte"
  events :: "event list"

datatype error = AssertFailed

fun is_store :: "event \<Rightarrow> bool" where
  "is_store (StoreByte a) = True"
| "is_store (StoreWord a) = True"
| "is_store (Enter p) = False"
| "is_store (Barrier a n) = False"

fun is_barrier :: "event \<Rightarrow> bool" where
  "is_barrier (Barrier a n) = True"
| "is_barrier (StoreByte a) = False"
| "is_barrier (StoreWord a) = False"
| "is_barrier (Enter p) = False"

text \<open>The addresses that the recorder was notified of, as a membership test.\<close>

fun covered :: "event list \<Rightarrow> addr \<Rightarrow> bool" where
  "covered [] x = False"
| "covered (Barrier a n # t) x = ((a \<le> x \<and> x < a + n) \<or> covered t x)"
| "covered (Enter p # t) x = covered t x"
| "covered (StoreByte a # t) x = covered t x"
| "covered (StoreWord a # t) x = covered t x"

subsection \<open>Stores and loads\<close>

text \<open>
  A byte store writes one address. A pointer-sized load reads POINTER_SIZE
  consecutive bytes and a pointer-sized store writes them in one step; the value in
  between is the list of its bytes in address order, so a load followed by a store
  does not depend on the byte order of the target. The bytes of a UIntNative value
  held as a number are taken least significant first, and \<open>(UInt8)pv\<close> is its
  lowest byte.
\<close>

definition store_byte :: "heap \<Rightarrow> addr \<Rightarrow> byte \<Rightarrow> heap" where
  "store_byte h a v =
     h\<lparr>memory := (memory h)(a := v), events := events h @ [StoreByte a]\<rparr>"

definition load_word :: "nat \<Rightarrow> heap \<Rightarrow> addr \<Rightarrow> byte list" where
  "load_word ps h a = map (\<lambda>i. memory h (a + i)) [0..<ps]"

definition store_word :: "nat \<Rightarrow> heap \<Rightarrow> addr \<Rightarrow> byte list \<Rightarrow> heap" where
  "store_word ps h a bs =
     h\<lparr>memory := (\<lambda>x. if a \<le> x \<and> x < a + length bs then bs ! (x - a) else memory h x),
       events := events h @ [StoreWord a]\<rparr>"

definition word_bytes :: "nat \<Rightarrow> nat \<Rightarrow> byte list" where
  "word_bytes ps pv = map (\<lambda>i. word_of_nat (drop_bit (8 * i) pv)) [0..<ps]"

definition low_byte :: "nat \<Rightarrow> byte" where
  "low_byte pv = word_of_nat pv"

subsection \<open>The inlined primitives (GCMemoryHelpers.inl)\<close>

text \<open>
  Modelled from the spec: GCMemoryHelpers.inl, which defines InlineGCSafeFillMemory,
  InlineForwardGCSafeCopy, InlineBackwardGCSafeCopy and InlinedBulkWriteBarrier, is not
  among the sources. Their parameters are those of the calls in GCMemoryHelpers.cpp;
  their bodies follow sections 4.2 to 4.5 of the specification.

  The range splits into three zones: a leading zone of \<open>start mod wordSize\<close> bytes
  (never more than the range holds), a middle zone of whole words and a trailing zone
  of the bytes that remain below one word. None of the results below depends on
  where the first zone ends.
\<close>

definition lead_zone :: "nat \<Rightarrow> addr \<Rightarrow> nat \<Rightarrow> nat" where
  "lead_zone ps start len = min len (start mod ps)"

definition middle_zone :: "nat \<Rightarrow> addr \<Rightarrow> nat \<Rightarrow> nat" where
  "middle_zone ps start len = (len - lead_zone ps start len) div ps"

definition trail_zone :: "nat \<Rightarrow> addr \<Rightarrow> nat \<Rightarrow> nat" where
  "trail_zone ps start len = (len - lead_zone ps start len) mod ps"

fun fill_bytes :: "heap \<Rightarrow> addr \<Rightarrow> nat \<Rightarrow> byte \<Rightarrow> heap" where
  "fill_bytes h a 0 v = h"
| "fill_bytes h a (Suc n) v = fill_bytes (store_byte h a v) (Suc a) n v"

fun fill_words :: "nat \<Rightarrow> heap \<Rightarrow> addr \<Rightarrow> nat \<Rightarrow> nat \<Rightarrow> heap" where
  "fill_words ps h a 0 pv = h"
| "fill_words ps h a (Suc n) pv =
     fill_words ps (store_word ps h a (word_bytes ps pv)) (a + ps) n pv"

text \<open>
  Modelled from the spec: InlineGCSafeFillMemory (section 4.2). The leading and the
  trailing zone are written byte by byte, each whole word of the middle zone with a
  single word-sized store.
\<close>

definition InlineGCSafeFillMemory :: "build \<Rightarrow> heap \<Rightarrow> addr \<Rightarrow> nat \<Rightarrow> nat \<Rightarrow> heap" where
  "InlineGCSafeFillMemory b h start len pv =
     (let ps = POINTER_SIZE b;
          lead = lead_zone ps start len;
          mid = middle_zone ps start len;
          trail = trail_zone ps start len;
          h0 = h\<lparr>events := events h @ [Enter FillMemory]\<rparr>;
          h1 = fill_bytes h0 start lead (low_byte pv);
          h2 = fill_words ps h1 (start + lead) mid pv
      in fill_bytes h2 (start + lead + mid * ps) trail (low_byte pv))"

fun copy_bytes_up :: "heap \<Rightarrow> addr \<Rightarrow> addr \<Rightarrow> nat \<Rightarrow> heap" where
  "copy_bytes_up h d s 0 = h"
| "copy_bytes_up h d s (Suc n) =
     copy_bytes_up (store_byte h d (memory h s)) (Suc d) (Suc s) n"

fun copy_words_up :: "nat \<Rightarrow> heap \<Rightarrow> addr \<Rightarrow> addr \<Rightarrow> nat \<Rightarrow> heap" where
  "copy_words_up ps h d s 0 = h"
| "copy_words_up ps h d s (Suc n) =
     copy_words_up ps (store_word ps h d (load_word ps h s)) (d + ps) (s + ps) n"

fun copy_bytes_down :: "heap \<Rightarrow> addr \<Rightarrow> addr \<Rightarrow> nat \<Rightarrow> heap" where
  "copy_bytes_down h d s 0 = h"
| "copy_bytes_down h d s (Suc n) =
     copy_bytes_down (store_byte h (d + n) (memory h (s + n))) d s n"

fun copy_words_down :: "nat \<Rightarrow> heap \<Rightarrow> addr \<Rightarrow> addr \<Rightarrow> nat \<Rightarrow> heap" where
  "copy_words_down ps h d s 0 = h"
| "copy_words_down ps h d s (Suc n) =
     copy_words_down ps
       (store_word ps h (d + n * ps) (load_word ps h (s + n * ps))) d s n"

text \<open>
  Modelled from the spec: InlineForwardGCSafeCopy (section 4.3). It copies from low
  addresses to high addresses, one word at a time, with the zoning of the fill (taken
  on the destination) where the range is not made of whole aligned words.
\<close>

definition InlineForwardGCSafeCopy :: "build \<Rightarrow> heap \<Rightarrow> addr \<Rightarrow> addr \<Rightarrow> nat \<Rightarrow> heap" where
  "InlineForwardGCSafeCopy b h dest src len =
     (let ps = POINTER_SIZE b;
          lead = lead_zone ps dest len;
          mid = middle_zone ps dest len;
          trail = trail_zone ps dest len;
          h0 = h\<lparr>events := events h @ [Enter ForwardCopy]\<rparr>;
          h1 = copy_bytes_up h0 dest src lead;
          h2 = copy_words_up ps h1 (dest + lead) (src + lead) mid
      in copy_bytes_up h2 (dest + lead + mid * ps) (src + lead + mid * ps) trail)"

text \<open>
  Modelled from the spec: InlineBackwardGCSafeCopy (section 4.4). The same copy, from
  the highest address down to the lowest.
\<close>

definition InlineBackwardGCSafeCopy :: "build \<Rightarrow> heap \<Rightarrow> addr \<Rightarrow> addr \<Rightarrow> nat \<Rightarrow> heap" where
  "InlineBackwardGCSafeCopy b h dest src len =
     (let ps = POINTER_SIZE b;
          lead = lead_zone ps dest len;
          mid = middle_zone ps dest len;
          trail = trail_zone ps dest len;
          h0 = h\<lparr>events := events h @ [Enter BackwardCopy]\<rparr>;
          h1 = copy_bytes_down h0 (dest + lead + mid * ps) (src + lead + mid * ps) trail;
          h2 = copy_words_down ps h1 (dest + lead) (src + lead) mid
      in copy_bytes_down h2 dest src lead)"

text \<open>
  Modelled from the spec: InlinedBulkWriteBarrier (section 4.5), the recorder. It is
  a side effect with no result and no failure: \<open>notify(range)\<close>, kept in the log as
  the tests' recording fake keeps it.
\<close>

definition InlinedBulkWriteBarrier :: "heap \<Rightarrow> addr \<Rightarrow> nat \<Rightarrow> heap" where
  "InlinedBulkWriteBarrier h pMemStart cbMemSize =
     h\<lparr>events := events h @ [Barrier pMemStart cbMemSize]\<rparr>"

subsection \<open>The entry points of GCMemoryHelpers.cpp\<close>

text \<open>
  An entry point returns \<open>Inl AssertFailed\<close> where an ASSERT of a debug build fails,
  and otherwise the heap it leaves, with its return value when it has one.

  Conversions between the integer types are written out: \<open>(UInt8)c\<close> keeps the low
  eight bits of \<open>c\<close>, \<open>(UInt32)len\<close> is \<open>len mod 2 ^ 32\<close>, and an \<open>int\<close> passed for
  a \<open>size_t\<close> is reduced modulo two to the width of a pointer.
\<close>

text \<open>
  RhpInitMultibyte (lines 26 to 47). \<open>bv\<close> is \<open>(UInt8)c\<close> widened to a UIntNative.
  Where it is not 0 the pattern is
  \<^verbatim>\<open>bv << 7*8 | bv << 6*8 | bv << 5*8 | bv << 4*8 | bv << 3*8 | bv << 2*8 | bv << 1*8 | bv\<close>
  with the first four terms compiled only when POINTER_SIZE is 8; the value is held
  in the POINTER_SIZE bytes of a UIntNative. The function asserts that \<open>mem\<close> is not
  null, fills, and returns \<open>mem\<close>.
\<close>

definition replicate_byte :: "nat \<Rightarrow> nat \<Rightarrow> nat" where
  "replicate_byte ps bv =
     take_bit (8 * ps)
       (if ps = 8
        then push_bit (7 * 8) bv OR push_bit (6 * 8) bv OR push_bit (5 * 8) bv OR
             push_bit (4 * 8) bv OR
             push_bit (3 * 8) bv OR push_bit (2 * 8) bv OR push_bit (1 * 8) bv OR bv
        else push_bit (3 * 8) bv OR push_bit (2 * 8) bv OR push_bit (1 * 8) bv OR bv)"

definition fill_pattern :: "build \<Rightarrow> int \<Rightarrow> nat" where
  "fill_pattern b c =
     (let bv = unat (word_of_int c :: byte);
          pv = 0
      in if bv \<noteq> 0 then replicate_byte (POINTER_SIZE b) bv else pv)"

definition RhpInitMultibyte ::
  "build \<Rightarrow> heap \<Rightarrow> addr \<Rightarrow> int \<Rightarrow> nat \<Rightarrow> error + heap \<times> addr" where
  "RhpInitMultibyte b h mem c len =
     (if DEBUG b \<and> \<not> mem \<noteq> 0 then Inl AssertFailed
      else Inr (InlineGCSafeFillMemory b h mem len (fill_pattern b c), mem))"

text \<open>
  memcpyGCRefs (lines 59 to 69) asserts that \<open>dest\<close> and then \<open>src\<close> are not null,
  copies forward and returns \<open>dest\<close>. memcpyGCRefsWithWriteBarrier (lines 81 to 92)
  does the same and, after the copy, calls the recorder with \<open>dest\<close> and
  \<open>(UInt32)len\<close>.
\<close>

definition memcpyGCRefs ::
  "build \<Rightarrow> heap \<Rightarrow> addr \<Rightarrow> addr \<Rightarrow> nat \<Rightarrow> error + heap \<times> addr" where
  "memcpyGCRefs b h dest src len =
     (if DEBUG b \<and> \<not> dest \<noteq> 0 then Inl AssertFailed
      else if DEBUG b \<and> \<not> src \<noteq> 0 then Inl AssertFailed
      else Inr (InlineForwardGCSafeCopy b h dest src len, dest))"

definition memcpyGCRefsWithWriteBarrier ::
  "build \<Rightarrow> heap \<Rightarrow> addr \<Rightarrow> addr \<Rightarrow> nat \<Rightarrow> error + heap \<times> addr" where
  "memcpyGCRefsWithWriteBarrier b h dest src len =
     (if DEBUG b \<and> \<not> dest \<noteq> 0 then Inl AssertFailed
      else if DEBUG b \<and> \<not> src \<noteq> 0 then Inl AssertFailed
      else Inr (InlinedBulkWriteBarrier (InlineForwardGCSafeCopy b h dest src len)
                  dest (len mod 2 ^ 32),
                dest))"

definition size_t_of_int :: "build \<Rightarrow> int \<Rightarrow> nat" where
  "size_t_of_int b i = nat (i mod 2 ^ (8 * POINTER_SIZE b))"

text \<open>
  RhBulkMoveWithWriteBarrier (lines 97 to 105) holds no assertion. It copies forward
  if \<^verbatim>\<open>pDest <= pSrc || pSrc + cbDest <= pDest\<close> and backward otherwise, then calls
  the recorder with \<open>pDest\<close> and \<open>cbDest\<close>.

  \<open>cbDest\<close> is an \<open>int\<close>: a 32-bit word read as a signed number where it is added to
  the pointer and where it becomes the \<open>size_t\<close> of the copy, and read as unsigned
  where it becomes the \<open>UInt32\<close> of the barrier. The pointer sum \<open>pSrc + cbDest\<close> is
  the sum of the address and the signed length, reduced modulo two to the width of a
  pointer: a negative length, or a range that runs past the end of the address space,
  makes it wrap.
\<close>

definition ptr_add :: "build \<Rightarrow> addr \<Rightarrow> int \<Rightarrow> addr" where
  "ptr_add b p i = nat ((int p + i) mod 2 ^ (8 * POINTER_SIZE b))"

definition RhBulkMoveWithWriteBarrier ::
  "build \<Rightarrow> heap \<Rightarrow> addr \<Rightarrow> addr \<Rightarrow> 32 word \<Rightarrow> error + heap" where
  "RhBulkMoveWithWriteBarrier b h pDest pSrc cbDest =
     (let h1 =
        (if pDest \<le> pSrc \<or> ptr_add b pSrc (sint cbDest) \<le> pDest
         then InlineForwardGCSafeCopy b h pDest pSrc (size_t_of_int b (sint cbDest))
         else InlineBackwardGCSafeCopy b h pDest pSrc (size_t_of_int b (sint cbDest)))
      in Inr (InlinedBulkWriteBarrier h1 pDest (unat cbDest)))"

text \<open>
  GCSafeZeroMemory (lines 107 to 110), GCSafeCopyMemoryWithWriteBarrier (lines 112 to
  116) and RhpBulkWriteBarrier (lines 119 to 122, compiled under CORERT) call the
  inlined primitives and hold no assertion.
\<close>

definition GCSafeZeroMemory :: "build \<Rightarrow> heap \<Rightarrow> addr \<Rightarrow> nat \<Rightarrow> error + heap" where
  "GCSafeZeroMemory b h dest len = Inr (InlineGCSafeFillMemory b h dest len 0)"

definition GCSafeCopyMemoryWithWriteBarrier ::
  "build \<Rightarrow> heap \<Rightarrow> addr \<Rightarrow> addr \<Rightarrow> nat \<Rightarrow> error + heap" where
  "GCSafeCopyMemoryWithWriteBarrier b h dest src len =
     Inr (InlinedBulkWriteBarrier (InlineForwardGCSafeCopy b h dest src len)
            dest (len mod 2 ^ 32))"

definition RhpBulkWriteBarrier :: "heap \<Rightarrow> addr \<Rightarrow> nat \<Rightarrow> error + heap" where
  "RhpBulkWriteBarrier h pMemStart cbMemSize =
     Inr (InlinedBulkWriteBarrier h pMemStart cbMemSize)"

subsection \<open>Reference semantics and observations\<close>

text \<open>
  The reference move of the specification: read all of the source into a temporary
  buffer first, then write the buffer to the destination.
\<close>

fun read_all :: "(addr \<Rightarrow> byte) \<Rightarrow> addr \<Rightarrow> nat \<Rightarrow> byte list" where
  "read_all m s 0 = []"
| "read_all m s (Suc n) = m s # read_all m (Suc s) n"

fun write_all :: "(addr \<Rightarrow> byte) \<Rightarrow> addr \<Rightarrow> byte list \<Rightarrow> addr \<Rightarrow> byte" where
  "write_all m d [] = m"
| "write_all m d (x # xs) = write_all (m(d := x)) (Suc d) xs"

definition buffered_move :: "(addr \<Rightarrow> byte) \<Rightarrow> addr \<Rightarrow> addr \<Rightarrow> nat \<Rightarrow> addr \<Rightarrow> byte" where
  "buffered_move m d s n = write_all m d (read_all m s n)"

text \<open>
  Modelled from the spec: section 5 has the collector read the heap while a call
  runs, a word-sized store being one indivisible step. What such a reader may see is
  the heap after some number of the stores of the call. \<open>fill_after\<close> is the heap after
  the first \<open>k\<close> stores of InlineGCSafeFillMemory, and \<open>forward_copy_after\<close> the heap
  after the first \<open>k\<close> stores of InlineForwardGCSafeCopy: the same zones and loops,
  stopped after \<open>k\<close> stores.
\<close>

definition fill_after :: "build \<Rightarrow> heap \<Rightarrow> addr \<Rightarrow> nat \<Rightarrow> nat \<Rightarrow> nat \<Rightarrow> heap" where
  "fill_after b h start len pv k =
     (let ps = POINTER_SIZE b;
          lead = lead_zone ps start len;
          mid = middle_zone ps start len;
          trail = trail_zone ps start len;
          h0 = h\<lparr>events := events h @ [Enter FillMemory]\<rparr>;
          h1 = fill_bytes h0 start (min k lead) (low_byte pv);
          h2 = fill_words ps h1 (start + lead) (min (k - lead) mid) pv
      in fill_bytes h2 (start + lead + mid * ps) (min (k - lead - mid) trail) (low_byte pv))"

definition forward_copy_after ::
  "build \<Rightarrow> heap \<Rightarrow> addr \<Rightarrow> addr \<Rightarrow> nat \<Rightarrow> nat \<Rightarrow> heap" where
  "forward_copy_after b h dest src len k =
     (let ps = POINTER_SIZE b;
          lead = lead_zone ps dest len;
          mid = middle_zone ps dest len;
          trail = trail_zone ps dest len;
          h0 = h\<lparr>events := events h @ [Enter ForwardCopy]\<rparr>;
          h1 = copy_bytes_up h0 dest src (min k lead);
          h2 = copy_words_up ps h1 (dest + lead) (src + lead) (min (k - lead) mid)
      in copy_bytes_up h2 (dest + lead + mid * ps) (src + lead + mid * ps)
           (min (k - lead - mid) trail))"

text \<open>Closed forms of a filled and of a moved memory, used to state what the loops leave.\<close>

definition filled :: "(addr \<Rightarrow> byte) \<Rightarrow> addr \<Rightarrow> nat \<Rightarrow> byte \<Rightarrow> addr \<Rightarrow> byte" where
  "filled m a n v = (\<lambda>x. if a \<le> x \<and> x < a + n then v else m x)"

definition moved :: "(addr \<Rightarrow> byte) \<Rightarrow> addr \<Rightarrow> addr \<Rightarrow> nat \<Rightarrow> addr \<Rightarrow> byte" where
  "moved m d s n = (\<lambda>x. if d \<le> x \<and> x < d + n then m (s + (x - d)) else m x)"

text \<open>Projections of the log: the primitives entered, the ranges notified, the stores.\<close>

fun entered :: "event list \<Rightarrow> primitive list" where
  "entered [] = []"
| "entered (Enter p # t) = p # entered t"
| "entered (StoreByte a # t) = entered t"
| "entered (StoreWord a # t) = entered t"
| "entered (Barrier a n # t) = entered t"

fun barriers :: "event list \<Rightarrow> (addr \<times> nat) list" where
  "barriers [] = []"
| "barriers (Barrier a n # t) = (a, n) # barriers t"
| "barriers (Enter p # t) = barriers t"
| "barriers (StoreByte a # t) = barriers t"
| "barriers (StoreWord a # t) = barriers t"

definition stores :: "event list \<Rightarrow> event list" where
  "stores t = filter is_store t"

text \<open>
  The composition that the specification gives for the copy with barrier: the
  forward copy, then the recorder on the destination range. The recorder's size
  parameter is a \<open>UInt32\<close>, so the \<open>size_t\<close> length is converted on the call.
\<close>

definition copyForward_then_recordWriteBarrier ::
  "build \<Rightarrow> heap \<Rightarrow> addr \<Rightarrow> addr \<Rightarrow> nat \<Rightarrow> error + heap \<times> addr" where
  "copyForward_then_recordWriteBarrier b h dest src len =
     (case memcpyGCRefs b h dest src len of
        Inl e \<Rightarrow> Inl e
      | Inr (h1, r) \<Rightarrow>
          (case RhpBulkWriteBarrier h1 dest (len mod 2 ^ 32) of
             Inl e \<Rightarrow> Inl e
           | Inr h2 \<Rightarrow> Inr (h2, r)))"

text \<open>A heap that differs from another by stores alone: its log is the other's, then stores.\<close>

definition only_stores :: "heap \<Rightarrow> heap \<Rightarrow> bool" where
  "only_stores h h' = (\<exists>es. events h' = events h @ es \<and> list_all is_store es)"

text \<open>Sample builds and a sample heap, each byte holding the low bits of its address.\<close>

definition release64 :: build where
  "release64 = \<lparr>DEBUG = False, POINTER_SIZE = 8\<rparr>"

definition debug64 :: build where
  "debug64 = \<lparr>DEBUG = True, POINTER_SIZE = 8\<rparr>"

definition debug32 :: build where
  "debug32 = \<lparr>DEBUG = True, POINTER_SIZE = 4\<rparr>"

definition numbered :: heap where
  "numbered = \<lparr>memory = (\<lambda>a. word_of_nat a), events = []\<rparr>"

section \<open>Properties\<close>

subsection \<open>The replicated fill pattern\<close>

lemma bit_unat_byte: "bit (unat (w :: byte)) n \<longleftrightarrow> n < 8 \<and> bit w n"
  using bit_imp_le_length [of w n] by (auto simp: bit_unsigned_iff)

lemma bit_byte_high:
  "\<not> bit (w :: byte) (8 + n)" "\<not> bit (w :: byte) (16 + n)"
  "\<not> bit (w :: byte) (24 + n)" "\<not> bit (w :: byte) (32 + n)"
  "\<not> bit (w :: byte) (40 + n)" "\<not> bit (w :: byte) (48 + n)"
  "\<not> bit (w :: byte) (56 + n)"
  using bit_imp_le_length [of w] by fastforce+

lemma byte_replicate8:
  assumes "i < 8"
  shows "(word_of_nat (drop_bit (8 * i) (replicate_byte 8 (unat (w :: byte)))) :: byte) = w"
proof -
  from assms have "i = 0 \<or> i = 1 \<or> i = 2 \<or> i = 3 \<or> i = 4 \<or> i = 5 \<or> i = 6 \<or> i = 7"
    by arith
  then show ?thesis
    by (elim disjE; simp; intro bit_word_eqI)
       (simp_all add: replicate_byte_def bit_simps bit_unat_byte bit_byte_high)
qed

lemma byte_replicate4:
  assumes "i < 4"
  shows "(word_of_nat (drop_bit (8 * i) (replicate_byte 4 (unat (w :: byte)))) :: byte) = w"
proof -
  from assms have "i = 0 \<or> i = 1 \<or> i = 2 \<or> i = 3"
    by arith
  then show ?thesis
    by (elim disjE; simp; intro bit_word_eqI)
       (simp_all add: replicate_byte_def bit_simps bit_unat_byte bit_byte_high)
qed

subsection \<open>What the loops leave in memory\<close>

lemma memory_store_byte [simp]: "memory (store_byte h a v) = (memory h)(a := v)"
  by (simp add: store_byte_def)

lemma events_store_byte [simp]: "events (store_byte h a v) = events h @ [StoreByte a]"
  by (simp add: store_byte_def)

lemma events_store_word [simp]: "events (store_word ps h a bs) = events h @ [StoreWord a]"
  by (simp add: store_word_def)

lemma length_word_bytes [simp]: "length (word_bytes ps pv) = ps"
  by (simp add: word_bytes_def)

lemma length_load_word [simp]: "length (load_word ps h a) = ps"
  by (simp add: load_word_def)

lemma memory_store_load: "memory (store_word ps h d (load_word ps h s)) = moved (memory h) d s ps"
  by (auto simp: store_word_def load_word_def moved_def fun_eq_iff)

lemma memory_store_pattern:
  assumes "\<forall>i<ps. word_bytes ps pv ! i = v"
  shows "memory (store_word ps h a (word_bytes ps pv)) = filled (memory h) a ps v"
  using assms by (auto simp: store_word_def filled_def fun_eq_iff)

lemma filled_0 [simp]: "filled m a 0 v = m"
  by (auto simp: filled_def fun_eq_iff)

lemma moved_0 [simp]: "moved m d s 0 = m"
  by (auto simp: moved_def fun_eq_iff)

lemma filled_append: "filled (filled m a k v) (a + k) l v = filled m a (k + l) v"
  by (auto simp: filled_def fun_eq_iff)

lemma filled_Suc: "filled (m(a := v)) (Suc a) n v = filled m a (Suc n) v"
  by (auto simp: filled_def fun_eq_iff)

lemma moved_append_up:
  assumes "d \<le> s \<or> s + (k + l) \<le> d"
  shows "moved (moved m d s k) (d + k) (s + k) l = moved m d s (k + l)"
  using assms by (auto simp: moved_def fun_eq_iff)

lemma moved_append_down:
  assumes "s \<le> d \<or> d + (k + l) \<le> s"
  shows "moved (moved m (d + k) (s + k) l) d s k = moved m d s (k + l)"
  using assms by (auto simp: moved_def fun_eq_iff)

lemma moved_Suc_up:
  assumes "d \<le> s \<or> s + Suc n \<le> d"
  shows "moved (m(d := m s)) (Suc d) (Suc s) n = moved m d s (Suc n)"
  using assms by (auto simp: moved_def fun_eq_iff intro!: arg_cong [where f = m])

lemma moved_Suc_down:
  assumes "s \<le> d \<or> d + Suc n \<le> s"
  shows "moved (m(d + n := m (s + n))) d s n = moved m d s (Suc n)"
  using assms by (auto simp: moved_def fun_eq_iff)

lemma memory_fill_bytes: "memory (fill_bytes h a n v) = filled (memory h) a n v"
  by (induction n arbitrary: h a) (simp_all add: filled_Suc)

lemma memory_fill_words:
  assumes "\<forall>i<ps. word_bytes ps pv ! i = v"
  shows "memory (fill_words ps h a n pv) = filled (memory h) a (n * ps) v"
proof (induction n arbitrary: h a)
  case 0
  show ?case by simp
next
  case (Suc n)
  have "memory (fill_words ps h a (Suc n) pv) =
        filled (filled (memory h) a ps v) (a + ps) (n * ps) v"
    by (simp add: Suc.IH memory_store_pattern [OF assms])
  also have "\<dots> = filled (memory h) a (Suc n * ps) v"
    by (simp add: filled_append)
  finally show ?case .
qed

lemma zones_sum: "lead_zone ps a n + middle_zone ps a n * ps + trail_zone ps a n = n"
  by (simp add: lead_zone_def middle_zone_def trail_zone_def)

lemma memory_copy_bytes_up:
  assumes "d \<le> s \<or> s + n \<le> d"
  shows "memory (copy_bytes_up h d s n) = moved (memory h) d s n"
  using assms
proof (induction n arbitrary: h d s)
  case 0
  show ?case by simp
next
  case (Suc n)
  from Suc.prems have "Suc d \<le> Suc s \<or> Suc s + n \<le> Suc d" by auto
  then have "memory (copy_bytes_up (store_byte h d (memory h s)) (Suc d) (Suc s) n) =
        moved (memory (store_byte h d (memory h s))) (Suc d) (Suc s) n"
    by (rule Suc.IH)
  also have "\<dots> = moved (memory h) d s (Suc n)"
    using Suc.prems by (simp add: moved_Suc_up)
  finally show ?case by simp
qed

lemma memory_copy_words_up:
  assumes "d \<le> s \<or> s + n * ps \<le> d"
  shows "memory (copy_words_up ps h d s n) = moved (memory h) d s (n * ps)"
  using assms
proof (induction n arbitrary: h d s)
  case 0
  show ?case by simp
next
  case (Suc n)
  let ?h = "store_word ps h d (load_word ps h s)"
  from Suc.prems have "d + ps \<le> s + ps \<or> s + ps + n * ps \<le> d + ps" by auto
  then have "memory (copy_words_up ps ?h (d + ps) (s + ps) n) =
        moved (memory ?h) (d + ps) (s + ps) (n * ps)"
    by (rule Suc.IH)
  also have "\<dots> = moved (moved (memory h) d s ps) (d + ps) (s + ps) (n * ps)"
    by (simp add: memory_store_load)
  also have "\<dots> = moved (memory h) d s (ps + n * ps)"
    using Suc.prems by (intro moved_append_up) simp
  finally show ?case by simp
qed

lemma memory_copy_bytes_down:
  assumes "s \<le> d \<or> d + n \<le> s"
  shows "memory (copy_bytes_down h d s n) = moved (memory h) d s n"
  using assms
proof (induction n arbitrary: h)
  case 0
  show ?case by simp
next
  case (Suc n)
  let ?h = "store_byte h (d + n) (memory h (s + n))"
  from Suc.prems have "s \<le> d \<or> d + n \<le> s" by auto
  then have "memory (copy_bytes_down ?h d s n) = moved (memory ?h) d s n"
    by (rule Suc.IH)
  also have "\<dots> = moved (memory h) d s (Suc n)"
    using Suc.prems by (simp add: moved_Suc_down)
  finally show ?case by simp
qed

lemma memory_copy_words_down:
  assumes "s \<le> d \<or> d + n * ps \<le> s"
  shows "memory (copy_words_down ps h d s n) = moved (memory h) d s (n * ps)"
  using assms
proof (induction n arbitrary: h)
  case 0
  show ?case by simp
next
  case (Suc n)
  let ?h = "store_word ps h (d + n * ps) (load_word ps h (s + n * ps))"
  from Suc.prems have "s \<le> d \<or> d + n * ps \<le> s" by auto
  then have "memory (copy_words_down ps ?h d s n) = moved (memory ?h) d s (n * ps)"
    by (rule Suc.IH)
  also have "\<dots> = moved (moved (memory h) (d + n * ps) (s + n * ps) ps) d s (n * ps)"
    by (simp add: memory_store_load)
  also have "\<dots> = moved (memory h) d s (n * ps + ps)"
    using Suc.prems by (intro moved_append_down) (simp add: add.commute)
  finally show ?case by (simp add: add.commute)
qed

lemma memory_enter [simp]: "memory (h\<lparr>events := es\<rparr>) = memory h"
  by simp

lemma memory_InlineGCSafeFillMemory:
  assumes "\<forall>i<POINTER_SIZE b. word_bytes (POINTER_SIZE b) pv ! i = low_byte pv"
  shows "memory (InlineGCSafeFillMemory b h a n pv) = filled (memory h) a n (low_byte pv)"
proof -
  let ?ps = "POINTER_SIZE b"
  let ?L = "lead_zone ?ps a n" and ?M = "middle_zone ?ps a n" and ?T = "trail_zone ?ps a n"
  let ?v = "low_byte pv"
  have "memory (InlineGCSafeFillMemory b h a n pv) =
        filled (filled (filled (memory h) a ?L ?v) (a + ?L) (?M * ?ps) ?v)
          (a + ?L + ?M * ?ps) ?T ?v"
    by (simp add: InlineGCSafeFillMemory_def Let_def memory_fill_bytes
        memory_fill_words [OF assms])
  also have "\<dots> = filled (filled (memory h) a (?L + ?M * ?ps) ?v) (a + (?L + ?M * ?ps)) ?T ?v"
    by (simp only: filled_append add.assoc)
  also have "\<dots> = filled (memory h) a (?L + ?M * ?ps + ?T) ?v"
    by (simp only: filled_append)
  finally show ?thesis by (simp only: zones_sum)
qed

lemma memory_InlineForwardGCSafeCopy:
  assumes "d \<le> s \<or> s + n \<le> d"
  shows "memory (InlineForwardGCSafeCopy b h d s n) = moved (memory h) d s n"
proof -
  let ?ps = "POINTER_SIZE b"
  let ?L = "lead_zone ?ps d n" and ?M = "middle_zone ?ps d n" and ?T = "trail_zone ?ps d n"
  have sum: "?L + ?M * ?ps + ?T = n" by (rule zones_sum)
  let ?h0 = "h\<lparr>events := events h @ [Enter ForwardCopy]\<rparr>"
  let ?h1 = "copy_bytes_up ?h0 d s ?L"
  let ?h2 = "copy_words_up ?ps ?h1 (d + ?L) (s + ?L) ?M"
  let ?h3 = "copy_bytes_up ?h2 (d + ?L + ?M * ?ps) (s + ?L + ?M * ?ps) ?T"
  have 1: "memory ?h1 = moved (memory h) d s ?L"
    using assms sum by (subst memory_copy_bytes_up) auto
  have 2: "memory ?h2 = moved (memory ?h1) (d + ?L) (s + ?L) (?M * ?ps)"
    using assms sum by (intro memory_copy_words_up) auto
  have 3: "memory ?h3 = moved (memory ?h2) (d + ?L + ?M * ?ps) (s + ?L + ?M * ?ps) ?T"
    using assms sum by (intro memory_copy_bytes_up) auto
  have "memory ?h2 = moved (memory h) d s (?L + ?M * ?ps)"
    unfolding 2 1 using assms sum by (intro moved_append_up) auto
  then have "memory ?h3 = moved (moved (memory h) d s (?L + ?M * ?ps))
      (d + (?L + ?M * ?ps)) (s + (?L + ?M * ?ps)) ?T"
    unfolding 3 by (simp only: add.assoc)
  also have "\<dots> = moved (memory h) d s (?L + ?M * ?ps + ?T)"
    using assms sum by (intro moved_append_up) auto
  finally have "memory ?h3 = moved (memory h) d s n"
    by (simp only: sum)
  then show ?thesis
    by (simp add: InlineForwardGCSafeCopy_def Let_def)
qed

lemma memory_InlineBackwardGCSafeCopy:
  assumes "s \<le> d \<or> d + n \<le> s"
  shows "memory (InlineBackwardGCSafeCopy b h d s n) = moved (memory h) d s n"
proof -
  let ?ps = "POINTER_SIZE b"
  let ?L = "lead_zone ?ps d n" and ?M = "middle_zone ?ps d n" and ?T = "trail_zone ?ps d n"
  have sum: "?L + ?M * ?ps + ?T = n" by (rule zones_sum)
  let ?h0 = "h\<lparr>events := events h @ [Enter BackwardCopy]\<rparr>"
  let ?h1 = "copy_bytes_down ?h0 (d + ?L + ?M * ?ps) (s + ?L + ?M * ?ps) ?T"
  let ?h2 = "copy_words_down ?ps ?h1 (d + ?L) (s + ?L) ?M"
  let ?h3 = "copy_bytes_down ?h2 d s ?L"
  have 1: "memory ?h1 = moved (memory h) (d + ?L + ?M * ?ps) (s + ?L + ?M * ?ps) ?T"
    using assms sum by (subst memory_copy_bytes_down) auto
  have 2: "memory ?h2 = moved (memory ?h1) (d + ?L) (s + ?L) (?M * ?ps)"
    using assms sum by (intro memory_copy_words_down) auto
  have 3: "memory ?h3 = moved (memory ?h2) d s ?L"
    using assms sum by (intro memory_copy_bytes_down) auto
  have "memory ?h2 = moved (memory h) (d + ?L) (s + ?L) (?M * ?ps + ?T)"
    unfolding 2 1 using assms sum by (intro moved_append_down) auto
  then have "memory ?h3 = moved (moved (memory h) (d + ?L) (s + ?L) (?M * ?ps + ?T)) d s ?L"
    unfolding 3 by simp
  also have "\<dots> = moved (memory h) d s (?L + (?M * ?ps + ?T))"
    using assms sum by (intro moved_append_down) auto
  finally have "memory ?h3 = moved (memory h) d s n"
    using sum by (simp only: add.assoc)
  then show ?thesis
    by (simp add: InlineBackwardGCSafeCopy_def Let_def)
qed

subsection \<open>The buffered reference move\<close>

lemma length_read_all [simp]: "length (read_all m s n) = n"
  by (induction n arbitrary: s) simp_all

lemma nth_read_all: "i < n \<Longrightarrow> read_all m s n ! i = m (s + i)"
proof (induction n arbitrary: s i)
  case 0
  then show ?case by simp
next
  case (Suc n)
  then show ?case by (cases i) simp_all
qed

lemma write_all_eq:
  "write_all m d xs = (\<lambda>x. if d \<le> x \<and> x < d + length xs then xs ! (x - d) else m x)"
proof (induction xs arbitrary: m d)
  case Nil
  show ?case by (auto simp: fun_eq_iff)
next
  case (Cons y ys)
  show ?case
    by (auto simp: Cons.IH fun_eq_iff nth_Cons' Suc_diff_le)
qed

lemma buffered_move_eq: "buffered_move m d s n = moved m d s n"
  by (auto simp: buffered_move_def write_all_eq moved_def nth_read_all fun_eq_iff)

subsection \<open>What the loops add to the log\<close>

lemma only_stores_refl: "only_stores h h"
  by (simp add: only_stores_def)

lemma only_stores_trans: "only_stores h h1 \<Longrightarrow> only_stores h1 h2 \<Longrightarrow> only_stores h h2"
  by (auto simp: only_stores_def)

lemma only_stores_store_byte: "only_stores h (store_byte h a v)"
  by (simp add: only_stores_def)

lemma only_stores_store_word: "only_stores h (store_word ps h a bs)"
  by (simp add: only_stores_def)

lemma only_stores_fill_bytes: "only_stores h (fill_bytes h a n v)"
proof (induction n arbitrary: h a)
  case 0
  show ?case by (simp add: only_stores_refl)
next
  case (Suc n)
  show ?case
    using only_stores_trans [OF only_stores_store_byte Suc.IH] by simp
qed

lemma only_stores_fill_words: "only_stores h (fill_words ps h a n pv)"
proof (induction n arbitrary: h a)
  case 0
  show ?case by (simp add: only_stores_refl)
next
  case (Suc n)
  show ?case
    using only_stores_trans [OF only_stores_store_word Suc.IH] by simp
qed

lemma only_stores_copy_bytes_up: "only_stores h (copy_bytes_up h d s n)"
proof (induction n arbitrary: h d s)
  case 0
  show ?case by (simp add: only_stores_refl)
next
  case (Suc n)
  show ?case
    using only_stores_trans [OF only_stores_store_byte Suc.IH] by simp
qed

lemma only_stores_copy_words_up: "only_stores h (copy_words_up ps h d s n)"
proof (induction n arbitrary: h d s)
  case 0
  show ?case by (simp add: only_stores_refl)
next
  case (Suc n)
  show ?case
    using only_stores_trans [OF only_stores_store_word Suc.IH] by simp
qed

lemma only_stores_copy_bytes_down: "only_stores h (copy_bytes_down h d s n)"
proof (induction n arbitrary: h)
  case 0
  show ?case by (simp add: only_stores_refl)
next
  case (Suc n)
  show ?case
    using only_stores_trans [OF only_stores_store_byte Suc.IH] by simp
qed

lemma only_stores_copy_words_down: "only_stores h (copy_words_down ps h d s n)"
proof (induction n arbitrary: h)
  case 0
  show ?case by (simp add: only_stores_refl)
next
  case (Suc n)
  show ?case
    using only_stores_trans [OF only_stores_store_word Suc.IH] by simp
qed

lemma events_InlineGCSafeFillMemory:
  "\<exists>es. events (InlineGCSafeFillMemory b h a n pv) = events h @ Enter FillMemory # es \<and>
     list_all is_store es"
proof -
  let ?h0 = "h\<lparr>events := events h @ [Enter FillMemory]\<rparr>"
  have "only_stores ?h0 (InlineGCSafeFillMemory b h a n pv)"
    unfolding InlineGCSafeFillMemory_def Let_def
    by (rule only_stores_trans [OF only_stores_fill_bytes
          only_stores_trans [OF only_stores_fill_words only_stores_fill_bytes]])
  then show ?thesis by (auto simp: only_stores_def)
qed

lemma events_InlineForwardGCSafeCopy:
  "\<exists>es. events (InlineForwardGCSafeCopy b h d s n) = events h @ Enter ForwardCopy # es \<and>
     list_all is_store es"
proof -
  let ?h0 = "h\<lparr>events := events h @ [Enter ForwardCopy]\<rparr>"
  have "only_stores ?h0 (InlineForwardGCSafeCopy b h d s n)"
    unfolding InlineForwardGCSafeCopy_def Let_def
    by (rule only_stores_trans [OF only_stores_copy_bytes_up
          only_stores_trans [OF only_stores_copy_words_up only_stores_copy_bytes_up]])
  then show ?thesis by (auto simp: only_stores_def)
qed

lemma events_InlineBackwardGCSafeCopy:
  "\<exists>es. events (InlineBackwardGCSafeCopy b h d s n) = events h @ Enter BackwardCopy # es \<and>
     list_all is_store es"
proof -
  let ?h0 = "h\<lparr>events := events h @ [Enter BackwardCopy]\<rparr>"
  have "only_stores ?h0 (InlineBackwardGCSafeCopy b h d s n)"
    unfolding InlineBackwardGCSafeCopy_def Let_def
    by (rule only_stores_trans [OF only_stores_copy_bytes_down
          only_stores_trans [OF only_stores_copy_words_down only_stores_copy_bytes_down]])
  then show ?thesis by (auto simp: only_stores_def)
qed

lemma entered_append [simp]: "entered (t @ u) = entered t @ entered u"
  by (induction t rule: entered.induct) simp_all

lemma barriers_append [simp]: "barriers (t @ u) = barriers t @ barriers u"
  by (induction t rule: barriers.induct) simp_all

lemma covered_append [simp]: "covered (t @ u) x \<longleftrightarrow> covered t x \<or> covered u x"
  by (induction t x rule: covered.induct) simp_all

lemma stores_append [simp]: "stores (t @ u) = stores t @ stores u"
  by (simp add: stores_def)

lemma entered_stores [simp]: "list_all is_store es \<Longrightarrow> entered es = []"
  by (induction es rule: entered.induct) simp_all

lemma barriers_stores [simp]: "list_all is_store es \<Longrightarrow> barriers es = []"
  by (induction es rule: barriers.induct) simp_all

lemma covered_stores [simp]: "list_all is_store es \<Longrightarrow> \<not> covered es x"
  by (induction es x rule: covered.induct) simp_all

subsection \<open>Integer conversions\<close>

lemma sint_nonneg_unat:
  assumes "0 \<le> sint (c :: 32 word)"
  shows "unat c = nat (sint c)"
proof -
  have "sint c < 2 ^ 32" using sint_lt [of c] by simp
  with assms have "take_bit 32 (sint c) = sint c"
    by (simp add: take_bit_int_eq_self)
  then have "sint c = uint c"
    using uint_sint [of c] by simp
  then show ?thesis by simp
qed

lemma size_t_of_int_nonneg:
  assumes "valid_build b" "0 \<le> sint (c :: 32 word)"
  shows "size_t_of_int b (sint c) = nat (sint c)"
proof -
  have "sint c < 2 ^ 31" using sint_lt [of c] by simp
  also have "(2::int) ^ 31 \<le> 2 ^ (8 * POINTER_SIZE b)"
    using assms(1) by (auto simp: valid_build_def)
  finally have "sint c mod 2 ^ (8 * POINTER_SIZE b) = sint c"
    using assms(2) by simp
  then show ?thesis by (simp add: size_t_of_int_def)
qed

subsection \<open>The bytes of the fill pattern\<close>

lemma fill_pattern_bytes:
  assumes "valid_build b" "i < POINTER_SIZE b"
  shows "word_bytes (POINTER_SIZE b) (fill_pattern b c) ! i = (word_of_int c :: byte)"
proof (cases "unat (word_of_int c :: byte) = 0")
  case True
  then have "(word_of_int c :: byte) = 0" by (simp add: unat_eq_0)
  with True assms(2) show ?thesis
    by (simp add: fill_pattern_def word_bytes_def)
next
  case False
  from assms(1) have "POINTER_SIZE b = 4 \<or> POINTER_SIZE b = 8"
    by (simp add: valid_build_def)
  then show ?thesis
    using False assms(2)
    by (auto simp: fill_pattern_def word_bytes_def byte_replicate4 byte_replicate8)
qed

lemma fill_pattern_low_byte:
  assumes "valid_build b"
  shows "low_byte (fill_pattern b c) = (word_of_int c :: byte)"
proof -
  from assms have "0 < POINTER_SIZE b" by (auto simp: valid_build_def)
  then have "word_bytes (POINTER_SIZE b) (fill_pattern b c) ! 0 = (word_of_int c :: byte)"
    using assms by (intro fill_pattern_bytes)
  then show ?thesis
    using \<open>0 < POINTER_SIZE b\<close> by (simp add: word_bytes_def low_byte_def)
qed

lemma word_of_int_mod_256: "(word_of_int (c mod 256) :: byte) = word_of_int c"
  by (simp add: word_of_int_eq_iff take_bit_eq_mod)

lemma fill_pattern_mod: "fill_pattern b (c mod 256) = fill_pattern b c"
  by (simp add: fill_pattern_def word_of_int_mod_256)

lemma fill_pattern_zero: "c mod 256 = 0 \<Longrightarrow> fill_pattern b c = 0"
proof -
  assume "c mod 256 = 0"
  then have "(word_of_int c :: byte) = word_of_int 0"
    by (metis word_of_int_mod_256)
  then show ?thesis by (simp add: fill_pattern_def)
qed

subsection \<open>The log of the move\<close>

lemma ptr_add_int: "ptr_add b p (int n) = (p + n) mod 2 ^ (8 * POINTER_SIZE b)"
proof -
  have "(int p + int n) mod 2 ^ (8 * POINTER_SIZE b) =
        int ((p + n) mod 2 ^ (8 * POINTER_SIZE b))"
    by (simp add: zmod_int)
  then show ?thesis
    by (simp only: ptr_add_def nat_int)
qed

lemma ptr_add_nonneg:
  assumes "0 \<le> i" "p + nat i < 2 ^ (8 * POINTER_SIZE b)"
  shows "ptr_add b p i = p + nat i"
proof -
  have "ptr_add b p (int (nat i)) = p + nat i"
    using assms(2) by (simp only: ptr_add_int mod_less)
  then show ?thesis
    using assms(1) by simp
qed

lemma RhBulkMove_forward:
  assumes "pDest \<le> pSrc \<or> ptr_add b pSrc (sint cbDest) \<le> pDest"
  shows "RhBulkMoveWithWriteBarrier b h pDest pSrc cbDest =
     Inr (InlinedBulkWriteBarrier
       (InlineForwardGCSafeCopy b h pDest pSrc (size_t_of_int b (sint cbDest))) pDest (unat cbDest))"
  using assms by (simp add: RhBulkMoveWithWriteBarrier_def)

lemma RhBulkMove_backward:
  assumes "\<not> (pDest \<le> pSrc \<or> ptr_add b pSrc (sint cbDest) \<le> pDest)"
  shows "RhBulkMoveWithWriteBarrier b h pDest pSrc cbDest =
     Inr (InlinedBulkWriteBarrier
       (InlineBackwardGCSafeCopy b h pDest pSrc (size_t_of_int b (sint cbDest))) pDest (unat cbDest))"
  using assms by (simp add: RhBulkMoveWithWriteBarrier_def)

lemma events_InlinedBulkWriteBarrier [simp]:
  "events (InlinedBulkWriteBarrier h a n) = events h @ [Barrier a n]"
  by (simp add: InlinedBulkWriteBarrier_def)

lemma memory_InlinedBulkWriteBarrier [simp]:
  "memory (InlinedBulkWriteBarrier h a n) = memory h"
  by (simp add: InlinedBulkWriteBarrier_def)

lemma events_RhBulkMove:
  "\<exists>h' es. RhBulkMoveWithWriteBarrier b h pDest pSrc cbDest = Inr h' \<and>
     events h' = events h @
       Enter (if pSrc < pDest \<and> pDest < ptr_add b pSrc (sint cbDest)
              then BackwardCopy else ForwardCopy) # es @ [Barrier pDest (unat cbDest)] \<and>
     list_all is_store es"
proof (cases "pDest \<le> pSrc \<or> ptr_add b pSrc (sint cbDest) \<le> pDest")
  case True
  obtain es where "events (InlineForwardGCSafeCopy b h pDest pSrc (size_t_of_int b (sint cbDest)))
      = events h @ Enter ForwardCopy # es" "list_all is_store es"
    using events_InlineForwardGCSafeCopy by blast
  with True show ?thesis
    by (auto simp: RhBulkMove_forward)
next
  case False
  obtain es where "events (InlineBackwardGCSafeCopy b h pDest pSrc (size_t_of_int b (sint cbDest)))
      = events h @ Enter BackwardCopy # es" "list_all is_store es"
    using events_InlineBackwardGCSafeCopy by blast
  with False show ?thesis
    by (auto simp: RhBulkMove_backward)
qed

subsection \<open>The memory left by the move and by the fill\<close>

lemma memory_RhBulkMove:
  assumes "valid_build b" "0 \<le> sint cbDest"
    "pSrc + nat (sint cbDest) < 2 ^ (8 * POINTER_SIZE b)"
  shows "\<exists>h'. RhBulkMoveWithWriteBarrier b h pDest pSrc cbDest = Inr h' \<and>
           memory h' = moved (memory h) pDest pSrc (nat (sint cbDest))"
proof -
  have sum: "ptr_add b pSrc (sint cbDest) = pSrc + nat (sint cbDest)"
    using assms(2,3) by (rule ptr_add_nonneg)
  show ?thesis
  proof (cases "pDest \<le> pSrc \<or> ptr_add b pSrc (sint cbDest) \<le> pDest")
    case True
    then have "pDest \<le> pSrc \<or> pSrc + nat (sint cbDest) \<le> pDest"
      by (simp add: sum)
    then show ?thesis
      using True by (simp add: RhBulkMove_forward size_t_of_int_nonneg [OF assms(1,2)]
          memory_InlineForwardGCSafeCopy)
  next
    case False
    then have "pSrc \<le> pDest \<or> pDest + nat (sint cbDest) \<le> pSrc"
      by auto
    then show ?thesis
      using False by (simp add: RhBulkMove_backward size_t_of_int_nonneg [OF assms(1,2)]
          memory_InlineBackwardGCSafeCopy)
  qed
qed

lemma memory_RhBulkMove_disjoint:
  assumes "valid_build b" "0 \<le> sint cbDest"
    "pSrc + nat (sint cbDest) \<le> pDest \<or> pDest + nat (sint cbDest) \<le> pSrc"
  shows "\<exists>h'. RhBulkMoveWithWriteBarrier b h pDest pSrc cbDest = Inr h' \<and>
           memory h' = moved (memory h) pDest pSrc (nat (sint cbDest))"
proof (cases "pDest \<le> pSrc \<or> ptr_add b pSrc (sint cbDest) \<le> pDest")
  case True
  from assms(3) have "pDest \<le> pSrc \<or> pSrc + nat (sint cbDest) \<le> pDest"
    by auto
  then show ?thesis
    using True by (simp add: RhBulkMove_forward size_t_of_int_nonneg [OF assms(1,2)]
        memory_InlineForwardGCSafeCopy)
next
  case False
  from assms(3) have "pSrc \<le> pDest \<or> pDest + nat (sint cbDest) \<le> pSrc"
    by auto
  then show ?thesis
    using False by (simp add: RhBulkMove_backward size_t_of_int_nonneg [OF assms(1,2)]
        memory_InlineBackwardGCSafeCopy)
qed

lemma memory_RhpInitMultibyte:
  assumes "valid_build b" "\<not> (DEBUG b \<and> mem = 0)"
  shows "\<exists>h'. RhpInitMultibyte b h mem c len = Inr (h', mem) \<and>
           memory h' = filled (memory h) mem len (word_of_int c)"
proof -
  have "\<forall>i<POINTER_SIZE b. word_bytes (POINTER_SIZE b) (fill_pattern b c) ! i =
          low_byte (fill_pattern b c)"
    using assms(1) by (simp add: fill_pattern_bytes fill_pattern_low_byte)
  then have "memory (InlineGCSafeFillMemory b h mem len (fill_pattern b c)) =
      filled (memory h) mem len (word_of_int c)"
    using assms(1) by (simp add: memory_InlineGCSafeFillMemory fill_pattern_low_byte)
  then show ?thesis
    using assms(2) by (auto simp: RhpInitMultibyte_def)
qed

subsection \<open>The log of the copies with barrier\<close>

lemma events_memcpyGCRefsWithWriteBarrier:
  assumes "\<not> (DEBUG b \<and> (dest = 0 \<or> src = 0))"
  shows "\<exists>h' es. memcpyGCRefsWithWriteBarrier b h dest src len = Inr (h', dest) \<and>
     events h' = events h @ Enter ForwardCopy # es @ [Barrier dest (len mod 2 ^ 32)] \<and>
     list_all is_store es \<and>
     memory h' = memory (InlineForwardGCSafeCopy b h dest src len)"
  using assms events_InlineForwardGCSafeCopy [of b h dest src len]
  by (auto simp: memcpyGCRefsWithWriteBarrier_def)

lemma events_GCSafeCopyMemoryWithWriteBarrier:
  "\<exists>h' es. GCSafeCopyMemoryWithWriteBarrier b h dest src len = Inr h' \<and>
     events h' = events h @ Enter ForwardCopy # es @ [Barrier dest (len mod 2 ^ 32)] \<and>
     list_all is_store es"
  using events_InlineForwardGCSafeCopy [of b h dest src len]
  by (auto simp: GCSafeCopyMemoryWithWriteBarrier_def)

subsection \<open>Empty ranges and repeated calls\<close>

lemma zones_0 [simp]:
  "lead_zone ps a 0 = 0" "middle_zone ps a 0 = 0" "trail_zone ps a 0 = 0"
  by (simp_all add: lead_zone_def middle_zone_def trail_zone_def)

lemma stores_simps [simp]:
  "stores [] = []"
  "stores (Enter p # t) = stores t"
  "stores (Barrier a n # t) = stores t"
  "stores (StoreByte a # t) = StoreByte a # stores t"
  "stores (StoreWord a # t) = StoreWord a # stores t"
  by (simp_all add: stores_def)

lemma fill_of_nothing:
  "memory (InlineGCSafeFillMemory b h a 0 pv) = memory h"
  "stores (events (InlineGCSafeFillMemory b h a 0 pv)) = stores (events h)"
  by (simp_all add: InlineGCSafeFillMemory_def)

lemma forward_copy_of_nothing:
  "memory (InlineForwardGCSafeCopy b h d s 0) = memory h"
  "stores (events (InlineForwardGCSafeCopy b h d s 0)) = stores (events h)"
  by (simp_all add: InlineForwardGCSafeCopy_def)

lemma backward_copy_of_nothing:
  "memory (InlineBackwardGCSafeCopy b h d s 0) = memory h"
  "stores (events (InlineBackwardGCSafeCopy b h d s 0)) = stores (events h)"
  by (simp_all add: InlineBackwardGCSafeCopy_def)

lemma size_t_of_int_0 [simp]: "size_t_of_int b 0 = 0"
  by (simp add: size_t_of_int_def)

lemma filled_twice: "filled (filled m a n v) a n v = filled m a n v"
  by (auto simp: filled_def fun_eq_iff)

lemma moved_twice:
  assumes "s + n \<le> d \<or> d + n \<le> s"
  shows "moved (moved m d s n) d s n = moved m d s n"
  using assms by (auto simp: moved_def fun_eq_iff)

lemma zero_length_writes_nothing:
  assumes "dest \<noteq> 0" "src \<noteq> 0"
  shows "(\<exists>h'. RhpInitMultibyte b h dest c 0 = Inr (h', dest) \<and>
            memory h' = memory h \<and> stores (events h') = stores (events h)) \<and>
         (\<exists>h'. memcpyGCRefs b h dest src 0 = Inr (h', dest) \<and>
            memory h' = memory h \<and> stores (events h') = stores (events h)) \<and>
         (memory (InlineBackwardGCSafeCopy b h dest src 0) = memory h \<and>
            stores (events (InlineBackwardGCSafeCopy b h dest src 0)) = stores (events h)) \<and>
         (\<exists>h'. RhBulkMoveWithWriteBarrier b h dest src 0 = Inr h' \<and>
            memory h' = memory h \<and> stores (events h') = stores (events h)) \<and>
         (\<exists>h'. memcpyGCRefsWithWriteBarrier b h dest src 0 = Inr (h', dest) \<and>
            memory h' = memory h \<and> stores (events h') = stores (events h))"
  using assms
  by (simp add: RhpInitMultibyte_def memcpyGCRefs_def memcpyGCRefsWithWriteBarrier_def
      RhBulkMoveWithWriteBarrier_def fill_of_nothing forward_copy_of_nothing
      backward_copy_of_nothing)

lemma fill_twice:
  assumes "valid_build b" "mem \<noteq> 0"
  shows "\<exists>h1 h2. RhpInitMultibyte b h mem c len = Inr (h1, mem) \<and>
           RhpInitMultibyte b h1 mem c len = Inr (h2, mem) \<and> memory h2 = memory h1"
proof -
  obtain h1 where 1: "RhpInitMultibyte b h mem c len = Inr (h1, mem)"
    "memory h1 = filled (memory h) mem len (word_of_int c)"
    using memory_RhpInitMultibyte [of b mem h c len] assms by blast
  obtain h2 where 2: "RhpInitMultibyte b h1 mem c len = Inr (h2, mem)"
    "memory h2 = filled (memory h1) mem len (word_of_int c)"
    using memory_RhpInitMultibyte [of b mem h1 c len] assms by blast
  from 1 2 show ?thesis by (simp add: filled_twice)
qed

lemma backward_copy_twice:
  assumes "src + len \<le> dest \<or> dest + len \<le> src"
  shows "memory (InlineBackwardGCSafeCopy b (InlineBackwardGCSafeCopy b h dest src len) dest src len)
          = memory (InlineBackwardGCSafeCopy b h dest src len)"
proof -
  from assms have "src \<le> dest \<or> dest + len \<le> src" by auto
  then show ?thesis
    using assms by (simp add: memory_InlineBackwardGCSafeCopy moved_twice)
qed

lemma move_twice:
  assumes "valid_build b" "0 \<le> sint cbDest"
    "src + nat (sint cbDest) \<le> dest \<or> dest + nat (sint cbDest) \<le> src"
  shows "\<exists>h1 h2. RhBulkMoveWithWriteBarrier b h dest src cbDest = Inr h1 \<and>
           RhBulkMoveWithWriteBarrier b h1 dest src cbDest = Inr h2 \<and> memory h2 = memory h1"
proof -
  obtain h1 where 1: "RhBulkMoveWithWriteBarrier b h dest src cbDest = Inr h1"
    "memory h1 = moved (memory h) dest src (nat (sint cbDest))"
    using memory_RhBulkMove_disjoint [OF assms] by blast
  obtain h2 where 2: "RhBulkMoveWithWriteBarrier b h1 dest src cbDest = Inr h2"
    "memory h2 = moved (memory h1) dest src (nat (sint cbDest))"
    using memory_RhBulkMove_disjoint [OF assms] by blast
  from 1 2 assms(3) show ?thesis by (simp add: moved_twice)
qed

subsection \<open>Word stores on aligned ranges\<close>

lemma load_word_frame:
  assumes "\<forall>y. x \<le> y \<and> y < x + ps \<longrightarrow> memory h' y = memory h y"
  shows "load_word ps h' x = load_word ps h x"
  using assms by (simp add: load_word_def)

lemma memory_store_word_other:
  assumes "x < a \<or> a + length bs \<le> x"
  shows "memory (store_word ps h a bs) x = memory h x"
  using assms by (auto simp: store_word_def)

lemma load_store_word_same:
  assumes "length bs = ps"
  shows "load_word ps (store_word ps h a bs) a = bs"
  using assms by (auto simp: load_word_def store_word_def intro!: nth_equalityI)

lemma fill_words_frame:
  assumes "x < a \<or> a + n * ps \<le> x"
  shows "memory (fill_words ps h a n pv) x = memory h x"
  using assms
proof (induction n arbitrary: h a)
  case 0
  show ?case by simp
next
  case (Suc n)
  from Suc.prems have "x < a + ps \<or> a + ps + n * ps \<le> x" by auto
  then have "memory (fill_words ps (store_word ps h a (word_bytes ps pv)) (a + ps) n pv) x =
      memory (store_word ps h a (word_bytes ps pv)) x"
    by (rule Suc.IH)
  also have "\<dots> = memory h x"
    using Suc.prems by (intro memory_store_word_other) auto
  finally show ?case by simp
qed

lemma copy_words_up_frame:
  assumes "x < d \<or> d + n * ps \<le> x"
  shows "memory (copy_words_up ps h d s n) x = memory h x"
  using assms
proof (induction n arbitrary: h d s)
  case 0
  show ?case by simp
next
  case (Suc n)
  let ?h = "store_word ps h d (load_word ps h s)"
  from Suc.prems have "x < d + ps \<or> d + ps + n * ps \<le> x" by auto
  then have "memory (copy_words_up ps ?h (d + ps) (s + ps) n) x = memory ?h x"
    by (rule Suc.IH)
  also have "\<dots> = memory h x"
    using Suc.prems by (intro memory_store_word_other) auto
  finally show ?case by simp
qed

lemma fill_words_add:
  "fill_words ps h a (k + m) pv = fill_words ps (fill_words ps h a k pv) (a + k * ps) m pv"
  by (induction k arbitrary: h a) (simp_all add: add.assoc)

lemma copy_words_up_add:
  "copy_words_up ps h d s (k + m) =
     copy_words_up ps (copy_words_up ps h d s k) (d + k * ps) (s + k * ps) m"
  by (induction k arbitrary: h d s) (simp_all add: add.assoc)

lemma map_upt_Suc_shift: "map f [0..<Suc n] = f 0 # map (\<lambda>i. f (Suc i)) [0..<n]"
  by (simp only: upt_conv_Cons [of 0 "Suc n"] zero_less_Suc if_True list.map
      map_Suc_upt [symmetric] map_map comp_def)

lemma events_fill_words:
  "events (fill_words ps h a n pv) = events h @ map (\<lambda>i. StoreWord (a + i * ps)) [0..<n]"
proof (induction n arbitrary: h a)
  case 0
  show ?case by simp
next
  case (Suc n)
  show ?case
    by (simp only: fill_words.simps Suc.IH events_store_word map_upt_Suc_shift)
       (simp add: add.assoc)
qed

lemma events_copy_words_up:
  "events (copy_words_up ps h d s n) = events h @ map (\<lambda>i. StoreWord (d + i * ps)) [0..<n]"
proof (induction n arbitrary: h d s)
  case 0
  show ?case by simp
next
  case (Suc n)
  show ?case
    by (simp only: copy_words_up.simps Suc.IH events_store_word map_upt_Suc_shift)
       (simp add: add.assoc)
qed

lemma aligned_zones:
  assumes "a mod ps = 0" "n mod ps = 0"
  shows "lead_zone ps a n = 0" "middle_zone ps a n = n div ps" "trail_zone ps a n = 0"
  using assms by (simp_all add: lead_zone_def middle_zone_def trail_zone_def)

lemma load_word_fill_words_below:
  assumes "x + ps \<le> a"
  shows "load_word ps (fill_words ps h a n pv) x = load_word ps h x"
proof (rule load_word_frame, intro allI impI)
  fix y assume "x \<le> y \<and> y < x + ps"
  with assms have "y < a \<or> a + n * ps \<le> y" by simp
  then show "memory (fill_words ps h a n pv) y = memory h y"
    by (rule fill_words_frame)
qed

lemma load_word_fill_words_above:
  assumes "a + n * ps \<le> x"
  shows "load_word ps (fill_words ps h a n pv) x = load_word ps h x"
proof (rule load_word_frame, intro allI impI)
  fix y assume "x \<le> y \<and> y < x + ps"
  with assms have "y < a \<or> a + n * ps \<le> y" by simp
  then show "memory (fill_words ps h a n pv) y = memory h y"
    by (rule fill_words_frame)
qed

lemma load_word_copy_words_up_below:
  assumes "x + ps \<le> d"
  shows "load_word ps (copy_words_up ps h d s n) x = load_word ps h x"
proof (rule load_word_frame, intro allI impI)
  fix y assume "x \<le> y \<and> y < x + ps"
  with assms have "y < d \<or> d + n * ps \<le> y" by simp
  then show "memory (copy_words_up ps h d s n) y = memory h y"
    by (rule copy_words_up_frame)
qed

lemma load_word_copy_words_up_above:
  assumes "d + n * ps \<le> x"
  shows "load_word ps (copy_words_up ps h d s n) x = load_word ps h x"
proof (rule load_word_frame, intro allI impI)
  fix y assume "x \<le> y \<and> y < x + ps"
  with assms have "y < d \<or> d + n * ps \<le> y" by simp
  then show "memory (copy_words_up ps h d s n) y = memory h y"
    by (rule copy_words_up_frame)
qed

lemma word_after_fill_words:
  "load_word ps (fill_words ps h a k pv) (a + j * ps) =
     (if j < k then word_bytes ps pv else load_word ps h (a + j * ps))"
proof (cases "j < k")
  case True
  define m where "m = k - Suc j"
  from True have k: "k = j + Suc m" by (simp add: m_def)
  let ?hj = "fill_words ps h a j pv"
  let ?hs = "store_word ps ?hj (a + j * ps) (word_bytes ps pv)"
  have "fill_words ps h a (j + Suc m) pv = fill_words ps ?hj (a + j * ps) (Suc m) pv"
    by (rule fill_words_add)
  also have "\<dots> = fill_words ps ?hs (a + j * ps + ps) m pv"
    by (simp only: fill_words.simps)
  finally have "load_word ps (fill_words ps h a k pv) (a + j * ps) =
      load_word ps (fill_words ps ?hs (a + j * ps + ps) m pv) (a + j * ps)"
    by (simp only: k)
  also have "\<dots> = load_word ps ?hs (a + j * ps)"
    by (rule load_word_fill_words_below) simp
  also have "\<dots> = word_bytes ps pv"
    by (rule load_store_word_same) simp
  finally show ?thesis
    using True by simp
next
  case False
  then have "k * ps \<le> j * ps" by (simp add: mult_le_mono1)
  then have "a + k * ps \<le> a + j * ps" by simp
  then have "load_word ps (fill_words ps h a k pv) (a + j * ps) = load_word ps h (a + j * ps)"
    by (rule load_word_fill_words_above)
  with False show ?thesis by simp
qed

lemma word_after_copy_words_up:
  assumes "k \<le> n"
  shows "load_word ps (copy_words_up ps h d s k) (d + j * ps) =
     (if j < k then load_word ps (copy_words_up ps h d s n) (d + j * ps)
      else load_word ps h (d + j * ps))"
proof (cases "j < k")
  case True
  then have "Suc j * ps \<le> k * ps" by (intro mult_le_mono1) simp
  then have below: "d + j * ps + ps \<le> d + k * ps" by simp
  let ?hk = "copy_words_up ps h d s k"
  have "copy_words_up ps h d s (k + (n - k)) =
      copy_words_up ps ?hk (d + k * ps) (s + k * ps) (n - k)"
    by (rule copy_words_up_add)
  with assms have "copy_words_up ps h d s n =
      copy_words_up ps ?hk (d + k * ps) (s + k * ps) (n - k)"
    by simp
  moreover have "load_word ps (copy_words_up ps ?hk (d + k * ps) (s + k * ps) (n - k))
      (d + j * ps) = load_word ps ?hk (d + j * ps)"
    using below by (rule load_word_copy_words_up_below)
  ultimately show ?thesis
    using True by simp
next
  case False
  then have "k * ps \<le> j * ps" by (simp add: mult_le_mono1)
  then have "d + k * ps \<le> d + j * ps" by simp
  then have "load_word ps (copy_words_up ps h d s k) (d + j * ps) = load_word ps h (d + j * ps)"
    by (rule load_word_copy_words_up_above)
  with False show ?thesis by simp
qed

lemma load_word_enter [simp]: "load_word ps (h\<lparr>events := es\<rparr>) x = load_word ps h x"
  by (simp add: load_word_def)

lemma fill_aligned:
  assumes "a mod POINTER_SIZE b = 0" "len mod POINTER_SIZE b = 0"
  shows "InlineGCSafeFillMemory b h a len pv =
           fill_words (POINTER_SIZE b) (h\<lparr>events := events h @ [Enter FillMemory]\<rparr>) a
             (len div POINTER_SIZE b) pv"
    and "fill_after b h a len pv k =
           fill_words (POINTER_SIZE b) (h\<lparr>events := events h @ [Enter FillMemory]\<rparr>) a
             (min k (len div POINTER_SIZE b)) pv"
  by (simp_all add: InlineGCSafeFillMemory_def fill_after_def aligned_zones [OF assms] Let_def)

lemma forward_copy_aligned:
  assumes "d mod POINTER_SIZE b = 0" "len mod POINTER_SIZE b = 0"
  shows "InlineForwardGCSafeCopy b h d s len =
           copy_words_up (POINTER_SIZE b) (h\<lparr>events := events h @ [Enter ForwardCopy]\<rparr>) d s
             (len div POINTER_SIZE b)"
    and "forward_copy_after b h d s len k =
           copy_words_up (POINTER_SIZE b) (h\<lparr>events := events h @ [Enter ForwardCopy]\<rparr>) d s
             (min k (len div POINTER_SIZE b))"
  by (simp_all add: InlineForwardGCSafeCopy_def forward_copy_after_def aligned_zones [OF assms]
      Let_def)

lemma word_bytes_fill_pattern:
  assumes "valid_build b"
  shows "word_bytes (POINTER_SIZE b) (fill_pattern b c) =
           replicate (POINTER_SIZE b) (word_of_int c :: byte)"
  using assms by (auto intro!: nth_equalityI simp: fill_pattern_bytes)

lemma load_word_moved:
  assumes "memory h' = moved (memory h) d s n" "j * ps + ps \<le> n"
  shows "load_word ps h' (d + j * ps) = load_word ps h (s + j * ps)"
  using assms by (auto simp: load_word_def moved_def add.assoc)

lemma aligned_fill_words:
  assumes "a mod POINTER_SIZE b = 0" "len mod POINTER_SIZE b = 0"
  shows "events (InlineGCSafeFillMemory b h a len pv) =
           events h @ Enter FillMemory #
             map (\<lambda>i. StoreWord (a + i * POINTER_SIZE b)) [0..<len div POINTER_SIZE b]"
    and "k \<le> len div POINTER_SIZE b \<Longrightarrow>
           events (fill_after b h a len pv k) =
             events h @ Enter FillMemory # map (\<lambda>i. StoreWord (a + i * POINTER_SIZE b)) [0..<k]"
    and "k \<le> len div POINTER_SIZE b \<Longrightarrow>
           InlineGCSafeFillMemory b h a len pv =
             fill_words (POINTER_SIZE b) (fill_after b h a len pv k) (a + k * POINTER_SIZE b)
               (len div POINTER_SIZE b - k) pv"
    and "j < len div POINTER_SIZE b \<Longrightarrow>
           load_word (POINTER_SIZE b) (fill_after b h a len pv k) (a + j * POINTER_SIZE b) =
             (if j < k then word_bytes (POINTER_SIZE b) pv
              else load_word (POINTER_SIZE b) h (a + j * POINTER_SIZE b))"
proof -
  let ?ps = "POINTER_SIZE b" and ?h0 = "h\<lparr>events := events h @ [Enter FillMemory]\<rparr>"
  let ?n = "len div POINTER_SIZE b"
  note al = fill_aligned [OF assms]
  show "events (InlineGCSafeFillMemory b h a len pv) =
      events h @ Enter FillMemory # map (\<lambda>i. StoreWord (a + i * ?ps)) [0..<?n]"
    by (simp add: al events_fill_words)
  show "events (fill_after b h a len pv k) =
      events h @ Enter FillMemory # map (\<lambda>i. StoreWord (a + i * ?ps)) [0..<k]" if "k \<le> ?n"
    using that by (simp add: al events_fill_words min_absorb1)
  show "InlineGCSafeFillMemory b h a len pv =
      fill_words ?ps (fill_after b h a len pv k) (a + k * ?ps) (?n - k) pv" if "k \<le> ?n"
  proof -
    have "fill_words ?ps ?h0 a (k + (?n - k)) pv =
        fill_words ?ps (fill_words ?ps ?h0 a k pv) (a + k * ?ps) (?n - k) pv"
      by (rule fill_words_add)
    with that show ?thesis by (simp add: al min_absorb1)
  qed
  show "load_word ?ps (fill_after b h a len pv k) (a + j * ?ps) =
      (if j < k then word_bytes ?ps pv else load_word ?ps h (a + j * ?ps))" if "j < ?n"
    using that by (simp add: al word_after_fill_words)
qed

lemma aligned_copy_words:
  assumes "d mod POINTER_SIZE b = 0" "len mod POINTER_SIZE b = 0"
  shows "events (InlineForwardGCSafeCopy b h d s len) =
           events h @ Enter ForwardCopy #
             map (\<lambda>i. StoreWord (d + i * POINTER_SIZE b)) [0..<len div POINTER_SIZE b]"
    and "k \<le> len div POINTER_SIZE b \<Longrightarrow>
           events (forward_copy_after b h d s len k) =
             events h @ Enter ForwardCopy # map (\<lambda>i. StoreWord (d + i * POINTER_SIZE b)) [0..<k]"
    and "k \<le> len div POINTER_SIZE b \<Longrightarrow>
           InlineForwardGCSafeCopy b h d s len =
             copy_words_up (POINTER_SIZE b) (forward_copy_after b h d s len k)
               (d + k * POINTER_SIZE b) (s + k * POINTER_SIZE b) (len div POINTER_SIZE b - k)"
    and "j < len div POINTER_SIZE b \<Longrightarrow>
           load_word (POINTER_SIZE b) (forward_copy_after b h d s len k) (d + j * POINTER_SIZE b) =
             (if j < k
              then load_word (POINTER_SIZE b) (InlineForwardGCSafeCopy b h d s len)
                     (d + j * POINTER_SIZE b)
              else load_word (POINTER_SIZE b) h (d + j * POINTER_SIZE b))"
proof -
  let ?ps = "POINTER_SIZE b" and ?h0 = "h\<lparr>events := events h @ [Enter ForwardCopy]\<rparr>"
  let ?n = "len div POINTER_SIZE b"
  note al = forward_copy_aligned [OF assms]
  show "events (InlineForwardGCSafeCopy b h d s len) =
      events h @ Enter ForwardCopy # map (\<lambda>i. StoreWord (d + i * ?ps)) [0..<?n]"
    by (simp add: al events_copy_words_up)
  show "events (forward_copy_after b h d s len k) =
      events h @ Enter ForwardCopy # map (\<lambda>i. StoreWord (d + i * ?ps)) [0..<k]" if "k \<le> ?n"
    using that by (simp add: al events_copy_words_up min_absorb1)
  show "InlineForwardGCSafeCopy b h d s len =
      copy_words_up ?ps (forward_copy_after b h d s len k) (d + k * ?ps) (s + k * ?ps) (?n - k)"
    if "k \<le> ?n"
  proof -
    have "copy_words_up ?ps ?h0 d s (k + (?n - k)) =
        copy_words_up ?ps (copy_words_up ?ps ?h0 d s k) (d + k * ?ps) (s + k * ?ps) (?n - k)"
      by (rule copy_words_up_add)
    with that show ?thesis by (simp add: al min_absorb1)
  qed
  show "load_word ?ps (forward_copy_after b h d s len k) (d + j * ?ps) =
      (if j < k then load_word ?ps (InlineForwardGCSafeCopy b h d s len) (d + j * ?ps)
       else load_word ?ps h (d + j * ?ps))" if "j < ?n"
  proof -
    have "load_word ?ps (copy_words_up ?ps ?h0 d s (min k ?n)) (d + j * ?ps) =
        (if j < min k ?n then load_word ?ps (copy_words_up ?ps ?h0 d s ?n) (d + j * ?ps)
         else load_word ?ps ?h0 (d + j * ?ps))"
      by (rule word_after_copy_words_up) simp
    with that show ?thesis by (simp add: al)
  qed
qed

subsection \<open>Two runs\<close>

text \<open>
  The definitions compute. Unfolded on numerals, a backward move of 21 bytes in the
  64-bit build and a fill of 11 bytes in the 32-bit build give these logs and bytes.
\<close>

lemma copy_words_down_unfold:
  "copy_words_down ps h d s n =
     (if n = 0 then h
      else copy_words_down ps
        (store_word ps h (d + (n - 1) * ps) (load_word ps h (s + (n - 1) * ps))) d s (n - 1))"
  by (cases n) simp_all

lemma copy_bytes_down_unfold:
  "copy_bytes_down h d s n =
     (if n = 0 then h
      else copy_bytes_down (store_byte h (d + (n - 1)) (memory h (s + (n - 1)))) d s (n - 1))"
  by (cases n) simp_all

lemma fill_bytes_unfold:
  "fill_bytes h a n v =
     (if n = 0 then h else fill_bytes (store_byte h a v) (Suc a) (n - 1) v)"
  by (cases n) simp_all

lemma fill_words_unfold:
  "fill_words ps h a n pv =
     (if n = 0 then h
      else fill_words ps (store_word ps h a (word_bytes ps pv)) (a + ps) (n - 1) pv)"
  by (cases n) simp_all

lemma example_backward_move:
  "\<exists>h'. RhBulkMoveWithWriteBarrier release64 numbered 16 8 21 = Inr h' \<and> events h' =
     [Enter BackwardCopy, StoreByte 36, StoreByte 35, StoreByte 34, StoreByte 33,
      StoreByte 32, StoreWord 24, StoreWord 16, Barrier 16 21] \<and>
     map (memory h') [15, 16, 23, 24, 36, 37] = [15, 8, 15, 16, 28, 37]"
  by (simp add: RhBulkMoveWithWriteBarrier_def InlineBackwardGCSafeCopy_def release64_def
      numbered_def lead_zone_def middle_zone_def trail_zone_def size_t_of_int_def
      ptr_add_def store_word_def load_word_def copy_words_down_unfold
      copy_bytes_down_unfold Let_def)

lemma example_fill:
  "\<exists>h'. RhpInitMultibyte debug32 numbered 4 427 11 = Inr (h', 4) \<and> events h' =
     [Enter FillMemory, StoreWord 4, StoreWord 8, StoreByte 12, StoreByte 13, StoreByte 14] \<and>
     map (memory h') [3, 4, 7, 8, 14, 15] = [3, 171, 171, 171, 171, 15]"
  by (simp add: RhpInitMultibyte_def InlineGCSafeFillMemory_def debug32_def
      numbered_def lead_zone_def middle_zone_def trail_zone_def fill_pattern_def
      replicate_byte_def low_byte_def word_bytes_def store_word_def
      fill_words_unfold fill_bytes_unfold Let_def)

section \<open>The claims\<close>

text \<open>
  C1. For every destination and source, overlapping or not (destination below the
  source, above it, or the same range), and every length from 0 up,
  RhBulkMoveWithWriteBarrier leaves the memory that the reference move leaves, which
  reads all of the source into a temporary buffer and then writes it to the
  destination: the destination range holds the bytes that the source range held
  before the call. The source range is a range of the machine: it ends inside the
  address space, so the pointer sum of the direction test does not wrap.
\<close>

theorem move_matches_buffered_reference:
  assumes "valid_build b" "0 \<le> sint cbDest"
    "pSrc + nat (sint cbDest) < 2 ^ (8 * POINTER_SIZE b)"
  shows "\<exists>h'. RhBulkMoveWithWriteBarrier b h pDest pSrc cbDest = Inr h' \<and>
           memory h' = buffered_move (memory h) pDest pSrc (nat (sint cbDest)) \<and>
           (\<forall>i<nat (sint cbDest). memory h' (pDest + i) = memory h (pSrc + i))"
proof -
  obtain h' where h': "RhBulkMoveWithWriteBarrier b h pDest pSrc cbDest = Inr h'"
    "memory h' = moved (memory h) pDest pSrc (nat (sint cbDest))"
    using memory_RhBulkMove [OF assms] by blast
  have "\<forall>i<nat (sint cbDest). memory h' (pDest + i) = memory h (pSrc + i)"
    by (simp add: h'(2) moved_def)
  with h' show ?thesis
    by (simp add: buffered_move_eq)
qed

theorem move_matches_buffered_reference_witness:
  "(\<exists>h'. RhBulkMoveWithWriteBarrier release64 numbered 16 8 24 = Inr h' \<and>
      memory h' = buffered_move (memory numbered) 16 8 24 \<and>
      memory h' 16 = 8 \<and> memory h' 39 = 31) \<and>
   (\<exists>h'. RhBulkMoveWithWriteBarrier release64 numbered 8 16 24 = Inr h' \<and>
      memory h' = buffered_move (memory numbered) 8 16 24 \<and>
      memory h' 8 = 16 \<and> memory h' 31 = 39) \<and>
   (\<exists>h'. RhBulkMoveWithWriteBarrier release64 numbered 16 16 24 = Inr h' \<and>
      memory h' = buffered_move (memory numbered) 16 16 24 \<and> memory h' 16 = 16) \<and>
   (\<exists>h'. RhBulkMoveWithWriteBarrier release64 numbered 16 8 0 = Inr h' \<and>
      memory h' = buffered_move (memory numbered) 16 8 0 \<and> memory h' 16 = 16)"
  using move_matches_buffered_reference [of release64 24 8 numbered 16]
    move_matches_buffered_reference [of release64 24 16 numbered 8]
    move_matches_buffered_reference [of release64 24 16 numbered 16]
    move_matches_buffered_reference [of release64 0 8 numbered 16]
  by (auto simp: valid_build_def release64_def numbered_def buffered_move_eq moved_def)

text \<open>
  C2. For every destination, source and length, RhBulkMoveWithWriteBarrier enters
  exactly one copy primitive: the backward copy if and only if
  \<open>src < dest < src + length\<close>, and the forward copy otherwise, that is when
  \<open>dest \<le> src\<close> or \<open>src + length \<le> dest\<close>. Here \<open>src + length\<close> is the pointer sum
  that the code computes, which wraps at the width of a pointer; it is the plain sum
  of the address and the length where the length is not negative and the source range
  ends inside the address space.
\<close>

theorem dispatcher_direction:
  "(\<exists>h'. RhBulkMoveWithWriteBarrier b h pDest pSrc cbDest = Inr h' \<and>
      entered (events h') = entered (events h) @
        [if pSrc < pDest \<and> pDest < ptr_add b pSrc (sint cbDest)
         then BackwardCopy else ForwardCopy]) \<and>
   (0 \<le> sint cbDest \<and> pSrc + nat (sint cbDest) < 2 ^ (8 * POINTER_SIZE b) \<longrightarrow>
      ptr_add b pSrc (sint cbDest) = pSrc + nat (sint cbDest))"
proof -
  obtain h' es where "RhBulkMoveWithWriteBarrier b h pDest pSrc cbDest = Inr h'"
    "events h' = events h @
       Enter (if pSrc < pDest \<and> pDest < ptr_add b pSrc (sint cbDest)
              then BackwardCopy else ForwardCopy) # es @ [Barrier pDest (unat cbDest)]"
    "list_all is_store es"
    using events_RhBulkMove by blast
  then show ?thesis by (simp add: ptr_add_nonneg)
qed

theorem dispatcher_direction_witness:
  "(\<exists>h'. RhBulkMoveWithWriteBarrier release64 numbered 16 8 24 = Inr h' \<and>
      entered (events h') = [BackwardCopy]) \<and>
   (\<exists>h'. RhBulkMoveWithWriteBarrier release64 numbered 8 16 24 = Inr h' \<and>
      entered (events h') = [ForwardCopy]) \<and>
   (\<exists>h'. RhBulkMoveWithWriteBarrier release64 numbered 32 8 24 = Inr h' \<and>
      entered (events h') = [ForwardCopy]) \<and>
   (\<exists>h'. RhBulkMoveWithWriteBarrier release64 numbered 16 8 (- 24) = Inr h' \<and>
      entered (events h') = [BackwardCopy]) \<and>
   (\<exists>h'. RhBulkMoveWithWriteBarrier debug32 numbered 134529040 134529032 (- 2147483648) = Inr h' \<and>
      entered (events h') = [BackwardCopy]) \<and>
   ptr_add release64 8 24 = 32 \<and>
   ptr_add release64 8 (- 24) = 18446744073709551600"
  using dispatcher_direction [of release64 numbered 16 8 24]
    dispatcher_direction [of release64 numbered 8 16 24]
    dispatcher_direction [of release64 numbered 32 8 24]
    dispatcher_direction [of release64 numbered 16 8 "- 24"]
    dispatcher_direction [of debug32 numbered 134529040 134529032 "- 2147483648"]
  by (simp add: numbered_def release64_def debug32_def ptr_add_def)

text \<open>
  C3, as the code has it. The recorder's size parameter is a \<open>UInt32\<close>. For every
  non-null destination and source and every length below \<open>2 ^ 32\<close>, each barriered
  operation (memcpyGCRefsWithWriteBarrier, GCSafeCopyMemoryWithWriteBarrier, and
  RhBulkMoveWithWriteBarrier for a length that is not negative) notifies the recorder
  of exactly the destination range, so every address of the range is covered.
\<close>

theorem barrier_covers_destination_below_4G:
  assumes "len < 2 ^ 32" "dest \<noteq> 0" "src \<noteq> 0" "0 \<le> sint cbDest"
  shows "(\<exists>h'. memcpyGCRefsWithWriteBarrier b h dest src len = Inr (h', dest) \<and>
            barriers (events h') = barriers (events h) @ [(dest, len)] \<and>
            (\<forall>x. dest \<le> x \<and> x < dest + len \<longrightarrow> covered (events h') x)) \<and>
         (\<exists>h'. GCSafeCopyMemoryWithWriteBarrier b h dest src len = Inr h' \<and>
            barriers (events h') = barriers (events h) @ [(dest, len)] \<and>
            (\<forall>x. dest \<le> x \<and> x < dest + len \<longrightarrow> covered (events h') x)) \<and>
         (\<exists>h'. RhBulkMoveWithWriteBarrier b h dest src cbDest = Inr h' \<and>
            barriers (events h') = barriers (events h) @ [(dest, nat (sint cbDest))] \<and>
            (\<forall>x. dest \<le> x \<and> x < dest + nat (sint cbDest) \<longrightarrow> covered (events h') x))"
proof (intro conjI)
  obtain h' es where "memcpyGCRefsWithWriteBarrier b h dest src len = Inr (h', dest)"
    "events h' = events h @ Enter ForwardCopy # es @ [Barrier dest (len mod 2 ^ 32)]"
    "list_all is_store es"
    using events_memcpyGCRefsWithWriteBarrier [of b dest src h len] assms(2,3) by blast
  then show "\<exists>h'. memcpyGCRefsWithWriteBarrier b h dest src len = Inr (h', dest) \<and>
            barriers (events h') = barriers (events h) @ [(dest, len)] \<and>
            (\<forall>x. dest \<le> x \<and> x < dest + len \<longrightarrow> covered (events h') x)"
    using assms(1) by simp
next
  obtain h' es where "GCSafeCopyMemoryWithWriteBarrier b h dest src len = Inr h'"
    "events h' = events h @ Enter ForwardCopy # es @ [Barrier dest (len mod 2 ^ 32)]"
    "list_all is_store es"
    using events_GCSafeCopyMemoryWithWriteBarrier [of b h dest src len] by blast
  then show "\<exists>h'. GCSafeCopyMemoryWithWriteBarrier b h dest src len = Inr h' \<and>
            barriers (events h') = barriers (events h) @ [(dest, len)] \<and>
            (\<forall>x. dest \<le> x \<and> x < dest + len \<longrightarrow> covered (events h') x)"
    using assms(1) by simp
next
  obtain h' es p where "RhBulkMoveWithWriteBarrier b h dest src cbDest = Inr h'"
    "events h' = events h @ Enter p # es @ [Barrier dest (unat cbDest)]"
    "list_all is_store es"
    using events_RhBulkMove [of b h dest src cbDest] by blast
  then show "\<exists>h'. RhBulkMoveWithWriteBarrier b h dest src cbDest = Inr h' \<and>
            barriers (events h') = barriers (events h) @ [(dest, nat (sint cbDest))] \<and>
            (\<forall>x. dest \<le> x \<and> x < dest + nat (sint cbDest) \<longrightarrow> covered (events h') x)"
    using sint_nonneg_unat [OF assms(4)] by simp
qed

theorem barrier_covers_destination_below_4G_witness:
  "(\<exists>h'. memcpyGCRefsWithWriteBarrier debug64 numbered 64 8 24 = Inr (h', 64) \<and>
      barriers (events h') = [(64, 24)] \<and> covered (events h') 64 \<and> covered (events h') 87) \<and>
   (\<exists>h'. GCSafeCopyMemoryWithWriteBarrier debug64 numbered 64 8 24 = Inr h' \<and>
      barriers (events h') = [(64, 24)] \<and> covered (events h') 64 \<and> covered (events h') 87) \<and>
   (\<exists>h'. RhBulkMoveWithWriteBarrier debug64 numbered 64 8 24 = Inr h' \<and>
      barriers (events h') = [(64, 24)] \<and> covered (events h') 64 \<and> covered (events h') 87)"
  using barrier_covers_destination_below_4G [of 24 64 8 24 debug64 numbered]
  by (auto simp: numbered_def)

text \<open>
  C3 as stated fails for a length of \<open>2 ^ 32\<close>, which a 64-bit \<open>size_t\<close> holds:
  \<open>(UInt32)len\<close> is 0, the recorder is told of the empty range at \<open>dest\<close>, and the
  first address of the destination range is not covered.
\<close>

theorem barrier_misses_range_of_4G:
  "\<exists>h'. memcpyGCRefsWithWriteBarrier release64 numbered 8 8589934592 4294967296 = Inr (h', 8) \<and>
     barriers (events h') = [(8, 0)] \<and> \<not> covered (events h') 8"
proof -
  obtain h' es where
    "memcpyGCRefsWithWriteBarrier release64 numbered 8 8589934592 4294967296 = Inr (h', 8)"
    "events h' = events numbered @ Enter ForwardCopy # es @ [Barrier 8 (4294967296 mod 2 ^ 32)]"
    "list_all is_store es"
    using events_memcpyGCRefsWithWriteBarrier [of release64 8 8589934592 numbered 4294967296]
    by (auto simp: release64_def)
  then show ?thesis
    by (simp add: numbered_def)
qed

text \<open>
  C4. For every word-aligned range, a fill (RhpInitMultibyte) and a copy
  (memcpyGCRefs) overwrite each destination word by exactly one word-sized store and
  issue no byte store: the log of the call is one \<open>StoreWord\<close> per word of the range.
  A reader that samples a word of the range while the call runs sees the heap after
  some number \<open>k\<close> of these stores, and that heap is a point of the run: the call is
  this heap followed by the remaining stores. In it every word of the range is either
  the word the range held before the call or the word it holds when the call returns,
  never a mixture; for the fill the new word is the fill byte repeated, and for a copy
  that runs forward safely it is the source word.
\<close>

theorem aligned_words_are_never_torn:
  assumes "valid_build b" "dest \<noteq> 0" "src \<noteq> 0"
    "dest mod POINTER_SIZE b = 0" "len mod POINTER_SIZE b = 0"
  shows
    "(\<exists>h'. RhpInitMultibyte b h dest c len = Inr (h', dest) \<and>
        events h' = events h @ Enter FillMemory #
          map (\<lambda>i. StoreWord (dest + i * POINTER_SIZE b)) [0..<len div POINTER_SIZE b] \<and>
        (\<forall>k\<le>len div POINTER_SIZE b.
           events (fill_after b h dest len (fill_pattern b c) k) =
             events h @ Enter FillMemory #
               map (\<lambda>i. StoreWord (dest + i * POINTER_SIZE b)) [0..<k] \<and>
           h' = fill_words (POINTER_SIZE b) (fill_after b h dest len (fill_pattern b c) k)
                  (dest + k * POINTER_SIZE b) (len div POINTER_SIZE b - k) (fill_pattern b c)) \<and>
        (\<forall>k j. j < len div POINTER_SIZE b \<longrightarrow>
           load_word (POINTER_SIZE b) (fill_after b h dest len (fill_pattern b c) k)
               (dest + j * POINTER_SIZE b) =
             (if j < k then replicate (POINTER_SIZE b) (word_of_int c)
              else load_word (POINTER_SIZE b) h (dest + j * POINTER_SIZE b)))) \<and>
     (\<exists>h'. memcpyGCRefs b h dest src len = Inr (h', dest) \<and>
        events h' = events h @ Enter ForwardCopy #
          map (\<lambda>i. StoreWord (dest + i * POINTER_SIZE b)) [0..<len div POINTER_SIZE b] \<and>
        (\<forall>k\<le>len div POINTER_SIZE b.
           events (forward_copy_after b h dest src len k) =
             events h @ Enter ForwardCopy #
               map (\<lambda>i. StoreWord (dest + i * POINTER_SIZE b)) [0..<k] \<and>
           h' = copy_words_up (POINTER_SIZE b) (forward_copy_after b h dest src len k)
                  (dest + k * POINTER_SIZE b) (src + k * POINTER_SIZE b)
                  (len div POINTER_SIZE b - k)) \<and>
        (\<forall>k j. j < len div POINTER_SIZE b \<longrightarrow>
           load_word (POINTER_SIZE b) (forward_copy_after b h dest src len k)
               (dest + j * POINTER_SIZE b) =
             (if j < k then load_word (POINTER_SIZE b) h' (dest + j * POINTER_SIZE b)
              else load_word (POINTER_SIZE b) h (dest + j * POINTER_SIZE b))) \<and>
        (dest \<le> src \<or> src + len \<le> dest \<longrightarrow>
           (\<forall>j<len div POINTER_SIZE b.
              load_word (POINTER_SIZE b) h' (dest + j * POINTER_SIZE b) =
                load_word (POINTER_SIZE b) h (src + j * POINTER_SIZE b))))"
proof (intro conjI)
  note f = aligned_fill_words [OF assms(4,5), where h = h and pv = "fill_pattern b c"]
  have "RhpInitMultibyte b h dest c len =
      Inr (InlineGCSafeFillMemory b h dest len (fill_pattern b c), dest)"
    using assms(2) by (simp add: RhpInitMultibyte_def)
  then show "\<exists>h'. RhpInitMultibyte b h dest c len = Inr (h', dest) \<and>
        events h' = events h @ Enter FillMemory #
          map (\<lambda>i. StoreWord (dest + i * POINTER_SIZE b)) [0..<len div POINTER_SIZE b] \<and>
        (\<forall>k\<le>len div POINTER_SIZE b.
           events (fill_after b h dest len (fill_pattern b c) k) =
             events h @ Enter FillMemory #
               map (\<lambda>i. StoreWord (dest + i * POINTER_SIZE b)) [0..<k] \<and>
           h' = fill_words (POINTER_SIZE b) (fill_after b h dest len (fill_pattern b c) k)
                  (dest + k * POINTER_SIZE b) (len div POINTER_SIZE b - k) (fill_pattern b c)) \<and>
        (\<forall>k j. j < len div POINTER_SIZE b \<longrightarrow>
           load_word (POINTER_SIZE b) (fill_after b h dest len (fill_pattern b c) k)
               (dest + j * POINTER_SIZE b) =
             (if j < k then replicate (POINTER_SIZE b) (word_of_int c)
              else load_word (POINTER_SIZE b) h (dest + j * POINTER_SIZE b)))"
    using f(1) f(2) f(3) f(4) word_bytes_fill_pattern [OF assms(1), of c]
    by (intro exI [of _ "InlineGCSafeFillMemory b h dest len (fill_pattern b c)"]) simp
next
  note g = aligned_copy_words [OF assms(4,5), where h = h and s = src]
  let ?h' = "InlineForwardGCSafeCopy b h dest src len"
  have r: "memcpyGCRefs b h dest src len = Inr (?h', dest)"
    using assms(2,3) by (simp add: memcpyGCRefs_def)
  have src_words: "\<forall>j<len div POINTER_SIZE b.
      load_word (POINTER_SIZE b) ?h' (dest + j * POINTER_SIZE b) =
        load_word (POINTER_SIZE b) h (src + j * POINTER_SIZE b)"
    if "dest \<le> src \<or> src + len \<le> dest"
  proof (intro allI impI)
    fix j assume "j < len div POINTER_SIZE b"
    then have "Suc j * POINTER_SIZE b \<le> len div POINTER_SIZE b * POINTER_SIZE b"
      by (intro mult_le_mono1) simp
    also have "\<dots> \<le> len" by simp
    finally have "j * POINTER_SIZE b + POINTER_SIZE b \<le> len" by simp
    with memory_InlineForwardGCSafeCopy [OF that, of b h]
    show "load_word (POINTER_SIZE b) ?h' (dest + j * POINTER_SIZE b) =
        load_word (POINTER_SIZE b) h (src + j * POINTER_SIZE b)"
      by (rule load_word_moved)
  qed
  show "\<exists>h'. memcpyGCRefs b h dest src len = Inr (h', dest) \<and>
        events h' = events h @ Enter ForwardCopy #
          map (\<lambda>i. StoreWord (dest + i * POINTER_SIZE b)) [0..<len div POINTER_SIZE b] \<and>
        (\<forall>k\<le>len div POINTER_SIZE b.
           events (forward_copy_after b h dest src len k) =
             events h @ Enter ForwardCopy #
               map (\<lambda>i. StoreWord (dest + i * POINTER_SIZE b)) [0..<k] \<and>
           h' = copy_words_up (POINTER_SIZE b) (forward_copy_after b h dest src len k)
                  (dest + k * POINTER_SIZE b) (src + k * POINTER_SIZE b)
                  (len div POINTER_SIZE b - k)) \<and>
        (\<forall>k j. j < len div POINTER_SIZE b \<longrightarrow>
           load_word (POINTER_SIZE b) (forward_copy_after b h dest src len k)
               (dest + j * POINTER_SIZE b) =
             (if j < k then load_word (POINTER_SIZE b) h' (dest + j * POINTER_SIZE b)
              else load_word (POINTER_SIZE b) h (dest + j * POINTER_SIZE b))) \<and>
        (dest \<le> src \<or> src + len \<le> dest \<longrightarrow>
           (\<forall>j<len div POINTER_SIZE b.
              load_word (POINTER_SIZE b) h' (dest + j * POINTER_SIZE b) =
                load_word (POINTER_SIZE b) h (src + j * POINTER_SIZE b)))"
    using r g(1) g(2) g(3) g(4) src_words
    by (intro exI [of _ ?h']) simp
qed

theorem aligned_words_are_never_torn_witness:
  "(\<exists>h'. RhpInitMultibyte release64 numbered 64 427 24 = Inr (h', 64) \<and>
      events h' = [Enter FillMemory, StoreWord 64, StoreWord 72, StoreWord 80] \<and>
      load_word 8 (fill_after release64 numbered 64 24 (fill_pattern release64 427) 1) 64 =
        replicate 8 171 \<and>
      load_word 8 (fill_after release64 numbered 64 24 (fill_pattern release64 427) 1) 72 =
        load_word 8 numbered 72) \<and>
   (\<exists>h'. memcpyGCRefs release64 numbered 64 8 24 = Inr (h', 64) \<and>
      events h' = [Enter ForwardCopy, StoreWord 64, StoreWord 72, StoreWord 80] \<and>
      load_word 8 (forward_copy_after release64 numbered 64 8 24 2) 72 =
        load_word 8 numbered 16 \<and>
      load_word 8 (forward_copy_after release64 numbered 64 8 24 2) 80 =
        load_word 8 numbered 80)"
proof -
  have vb: "valid_build release64" and ps: "POINTER_SIZE release64 = 8"
    by (simp_all add: valid_build_def release64_def)
  have pre: "(64::nat) \<noteq> 0" "(8::nat) \<noteq> 0" "64 mod POINTER_SIZE release64 = 0"
    "24 mod POINTER_SIZE release64 = 0"
    by (simp_all add: ps)
  note T = aligned_words_are_never_torn [OF vb pre, of numbered 427, unfolded ps]
  from T [THEN conjunct1] obtain h1 where h1:
    "RhpInitMultibyte release64 numbered 64 427 24 = Inr (h1, 64)"
    "events h1 = events numbered @ Enter FillMemory #
       map (\<lambda>i. StoreWord (64 + i * 8)) [0..<24 div 8]"
    "\<forall>k j. j < 24 div 8 \<longrightarrow>
       load_word 8 (fill_after release64 numbered 64 24 (fill_pattern release64 427) k)
           (64 + j * 8) =
         (if j < k then replicate 8 (word_of_int 427) else load_word 8 numbered (64 + j * 8))"
    by blast
  from h1(2) have e1: "events h1 = [Enter FillMemory, StoreWord 64, StoreWord 72, StoreWord 80]"
    by (simp add: numbered_def upt_rec)
  from h1(3) [rule_format, of 0 1] h1(3) [rule_format, of 1 1]
  have w1: "load_word 8 (fill_after release64 numbered 64 24 (fill_pattern release64 427) 1) 64 =
        replicate 8 171"
    "load_word 8 (fill_after release64 numbered 64 24 (fill_pattern release64 427) 1) 72 =
        load_word 8 numbered 72"
    by simp_all
  from T [THEN conjunct2] obtain h2 where h2:
    "memcpyGCRefs release64 numbered 64 8 24 = Inr (h2, 64)"
    "events h2 = events numbered @ Enter ForwardCopy #
       map (\<lambda>i. StoreWord (64 + i * 8)) [0..<24 div 8]"
    "\<forall>k j. j < 24 div 8 \<longrightarrow>
       load_word 8 (forward_copy_after release64 numbered 64 8 24 k) (64 + j * 8) =
         (if j < k then load_word 8 h2 (64 + j * 8) else load_word 8 numbered (64 + j * 8))"
    "(64::nat) \<le> 8 \<or> (8::nat) + 24 \<le> 64 \<longrightarrow>
       (\<forall>j<24 div 8. load_word 8 h2 (64 + j * 8) = load_word 8 numbered (8 + j * 8))"
    by blast
  from h2(2) have e2: "events h2 = [Enter ForwardCopy, StoreWord 64, StoreWord 72, StoreWord 80]"
    by (simp add: numbered_def upt_rec)
  from h2(4) [rule_format, of 1] have "load_word 8 h2 72 = load_word 8 numbered 16"
    by simp
  with h2(3) [rule_format, of 1 2] h2(3) [rule_format, of 2 2]
  have w2: "load_word 8 (forward_copy_after release64 numbered 64 8 24 2) 72 =
        load_word 8 numbered 16"
    "load_word 8 (forward_copy_after release64 numbered 64 8 24 2) 80 =
        load_word 8 numbered 80"
    by simp_all
  from h1(1) e1 w1 h2(1) e2 w2 show ?thesis by blast
qed

text \<open>
  C5. Every call of RhBulkMoveWithWriteBarrier, whatever the destination, the source,
  the length and the direction chosen, notifies the recorder once, of the destination
  range \<open>(pDest, cbDest)\<close>, and the notification is the last event of the call: every
  store of the copy comes before it in program order.
\<close>

theorem barrier_after_all_stores:
  "\<exists>h' p es. RhBulkMoveWithWriteBarrier b h pDest pSrc cbDest = Inr h' \<and>
     events h' = events h @ Enter p # es @ [Barrier pDest (unat cbDest)] \<and>
     list_all is_store es"
  using events_RhBulkMove [of b h pDest pSrc cbDest] by blast

theorem barrier_after_all_stores_witness:
  "\<exists>h' p es. RhBulkMoveWithWriteBarrier release64 numbered 16 8 24 = Inr h' \<and>
     events h' = Enter p # es @ [Barrier 16 24] \<and> list_all is_store es"
  using barrier_after_all_stores [of release64 numbered 16 8 24]
  by (simp add: numbered_def)

text \<open>
  C6. For every non-null range, of any length and alignment, and every fill value,
  RhpInitMultibyte returns the start of the range and leaves every byte of the range
  equal to the fill byte \<open>(UInt8)c\<close>; it changes no byte outside the range.
\<close>

theorem fill_writes_every_byte:
  assumes "valid_build b" "mem \<noteq> 0"
  shows "\<exists>h'. RhpInitMultibyte b h mem c len = Inr (h', mem) \<and>
           (\<forall>x. mem \<le> x \<and> x < mem + len \<longrightarrow> memory h' x = word_of_int c) \<and>
           (\<forall>x. \<not> (mem \<le> x \<and> x < mem + len) \<longrightarrow> memory h' x = memory h x)"
proof -
  obtain h' where "RhpInitMultibyte b h mem c len = Inr (h', mem)"
    "memory h' = filled (memory h) mem len (word_of_int c)"
    using memory_RhpInitMultibyte [of b mem h c len] assms by blast
  then show ?thesis
    by (auto simp: filled_def)
qed

theorem fill_writes_every_byte_witness:
  "\<exists>h'. RhpInitMultibyte debug32 numbered 3 427 21 = Inr (h', 3) \<and>
     memory h' 3 = 171 \<and> memory h' 23 = 171 \<and> memory h' 2 = 2 \<and> memory h' 24 = 24"
  using fill_writes_every_byte [of debug32 3 numbered 427 21]
  by (auto simp: valid_build_def debug32_def numbered_def)

text \<open>
  C7. For every destination, source and length, memcpyGCRefsWithWriteBarrier is the
  forward copy memcpyGCRefs followed by the recorder on the destination range: the
  same assertions, the same heap and log, the same return value \<open>dest\<close>, and no
  overlap decision.
\<close>

theorem copyWithBarrier_is_copy_then_barrier:
  "memcpyGCRefsWithWriteBarrier b h dest src len =
     copyForward_then_recordWriteBarrier b h dest src len"
  by (simp add: memcpyGCRefsWithWriteBarrier_def copyForward_then_recordWriteBarrier_def
      memcpyGCRefs_def RhpBulkWriteBarrier_def)

theorem copyWithBarrier_is_copy_then_barrier_witness:
  "memcpyGCRefsWithWriteBarrier release64 numbered 64 8 16 =
     copyForward_then_recordWriteBarrier release64 numbered 64 8 16 \<and>
   memcpyGCRefsWithWriteBarrier debug64 numbered 0 8 16 = Inl AssertFailed"
  using copyWithBarrier_is_copy_then_barrier [of release64 numbered 64 8 16]
  by (simp add: memcpyGCRefsWithWriteBarrier_def debug64_def)

text \<open>
  C8, as the code has it. With a length of 0 the fill, the forward copy, the backward
  copy, the move and the copy with barrier store nothing and leave memory as it was.
  A fill done twice leaves the memory that it leaves when done once; so does each copy
  and the move when the source range and the destination range do not overlap.
\<close>

theorem zero_length_and_idempotence:
  assumes "valid_build b" "dest \<noteq> 0" "src \<noteq> 0"
  shows "(\<exists>h'. RhpInitMultibyte b h dest c 0 = Inr (h', dest) \<and>
            memory h' = memory h \<and> stores (events h') = stores (events h)) \<and>
         (\<exists>h'. memcpyGCRefs b h dest src 0 = Inr (h', dest) \<and>
            memory h' = memory h \<and> stores (events h') = stores (events h)) \<and>
         (memory (InlineBackwardGCSafeCopy b h dest src 0) = memory h \<and>
            stores (events (InlineBackwardGCSafeCopy b h dest src 0)) = stores (events h)) \<and>
         (\<exists>h'. RhBulkMoveWithWriteBarrier b h dest src 0 = Inr h' \<and>
            memory h' = memory h \<and> stores (events h') = stores (events h)) \<and>
         (\<exists>h'. memcpyGCRefsWithWriteBarrier b h dest src 0 = Inr (h', dest) \<and>
            memory h' = memory h \<and> stores (events h') = stores (events h)) \<and>
         (\<exists>h1 h2. RhpInitMultibyte b h dest c len = Inr (h1, dest) \<and>
            RhpInitMultibyte b h1 dest c len = Inr (h2, dest) \<and> memory h2 = memory h1) \<and>
         (src + len \<le> dest \<or> dest + len \<le> src \<longrightarrow>
            (\<exists>h1 h2. memcpyGCRefs b h dest src len = Inr (h1, dest) \<and>
               memcpyGCRefs b h1 dest src len = Inr (h2, dest) \<and> memory h2 = memory h1) \<and>
            (\<exists>h1 h2. memcpyGCRefsWithWriteBarrier b h dest src len = Inr (h1, dest) \<and>
               memcpyGCRefsWithWriteBarrier b h1 dest src len = Inr (h2, dest) \<and>
               memory h2 = memory h1) \<and>
            memory (InlineBackwardGCSafeCopy b (InlineBackwardGCSafeCopy b h dest src len)
                      dest src len) = memory (InlineBackwardGCSafeCopy b h dest src len)) \<and>
         (0 \<le> sint cbDest \<and>
          (src + nat (sint cbDest) \<le> dest \<or> dest + nat (sint cbDest) \<le> src) \<longrightarrow>
            (\<exists>h1 h2. RhBulkMoveWithWriteBarrier b h dest src cbDest = Inr h1 \<and>
               RhBulkMoveWithWriteBarrier b h1 dest src cbDest = Inr h2 \<and>
               memory h2 = memory h1))"
proof -
  have copies: "(\<exists>h1 h2. memcpyGCRefs b h dest src len = Inr (h1, dest) \<and>
               memcpyGCRefs b h1 dest src len = Inr (h2, dest) \<and> memory h2 = memory h1) \<and>
            (\<exists>h1 h2. memcpyGCRefsWithWriteBarrier b h dest src len = Inr (h1, dest) \<and>
               memcpyGCRefsWithWriteBarrier b h1 dest src len = Inr (h2, dest) \<and>
               memory h2 = memory h1)"
    if "src + len \<le> dest \<or> dest + len \<le> src"
  proof -
    from that have fwd: "dest \<le> src \<or> src + len \<le> dest" by auto
    show ?thesis
      using assms(2,3) that fwd
      by (simp add: memcpyGCRefs_def memcpyGCRefsWithWriteBarrier_def
          memory_InlineForwardGCSafeCopy moved_twice)
  qed
  show ?thesis
    using zero_length_writes_nothing [OF assms(2,3), of b h c]
      fill_twice [OF assms(1,2), of h c len] copies
      backward_copy_twice [of src len dest b h]
      move_twice [OF assms(1), of cbDest src dest h]
    by blast
qed

theorem zero_length_and_idempotence_witness:
  "(\<exists>h'. RhBulkMoveWithWriteBarrier release64 numbered 64 8 0 = Inr h' \<and>
      memory h' = memory numbered \<and> stores (events h') = []) \<and>
   (\<exists>h1 h2. RhpInitMultibyte release64 numbered 64 7 24 = Inr (h1, 64) \<and>
      RhpInitMultibyte release64 h1 64 7 24 = Inr (h2, 64) \<and> memory h2 = memory h1) \<and>
   (\<exists>h1 h2. memcpyGCRefs release64 numbered 64 8 24 = Inr (h1, 64) \<and>
      memcpyGCRefs release64 h1 64 8 24 = Inr (h2, 64) \<and> memory h2 = memory h1) \<and>
   (\<exists>h1 h2. RhBulkMoveWithWriteBarrier release64 numbered 64 8 24 = Inr h1 \<and>
      RhBulkMoveWithWriteBarrier release64 h1 64 8 24 = Inr h2 \<and> memory h2 = memory h1)"
  using zero_length_and_idempotence [of release64 64 8 numbered 7 24 24]
  by (simp add: valid_build_def release64_def numbered_def stores_def)

text \<open>
  C8 as stated fails for overlapping ranges: moving 16 bytes from address 8 to address
  16 twice leaves the byte at address 24 different from moving them once.
\<close>

theorem overlapping_move_twice_differs:
  "\<exists>h1 h2. RhBulkMoveWithWriteBarrier release64 numbered 16 8 16 = Inr h1 \<and>
     RhBulkMoveWithWriteBarrier release64 h1 16 8 16 = Inr h2 \<and>
     memory h1 24 = 16 \<and> memory h2 24 = 8 \<and> memory h2 \<noteq> memory h1"
proof -
  have vb: "valid_build release64" by (simp add: valid_build_def release64_def)
  have nn: "0 \<le> sint (16 :: 32 word)" by simp
  have fit: "8 + nat (sint (16 :: 32 word)) < 2 ^ (8 * POINTER_SIZE release64)"
    by (simp add: release64_def)
  obtain h1 where 1: "RhBulkMoveWithWriteBarrier release64 numbered 16 8 16 = Inr h1"
    "memory h1 = moved (memory numbered) 16 8 (nat (sint (16 :: 32 word)))"
    using memory_RhBulkMove [OF vb nn fit] by blast
  obtain h2 where 2: "RhBulkMoveWithWriteBarrier release64 h1 16 8 16 = Inr h2"
    "memory h2 = moved (memory h1) 16 8 (nat (sint (16 :: 32 word)))"
    using memory_RhBulkMove [OF vb nn fit] by blast
  have a: "memory h1 24 = 16" by (simp add: 1(2) moved_def numbered_def)
  have b: "memory h2 24 = 8" by (simp add: 2(2) 1(2) moved_def numbered_def)
  have "memory h2 \<noteq> memory h1"
  proof
    assume "memory h2 = memory h1"
    with a b show False by simp
  qed
  with 1(1) 2(1) a b show ?thesis by blast
qed

text \<open>
  C9, as the code has it. In a debug build RhpInitMultibyte aborts exactly when its
  range is null, and memcpyGCRefs and memcpyGCRefsWithWriteBarrier abort exactly when
  the destination or the source is null; in a release build none of them aborts.
  RhBulkMoveWithWriteBarrier, GCSafeZeroMemory, GCSafeCopyMemoryWithWriteBarrier and
  RhpBulkWriteBarrier hold no assertion and abort in no build.
\<close>

theorem null_assertions_by_entry_point:
  "(RhpInitMultibyte b h mem c len = Inl AssertFailed \<longleftrightarrow> DEBUG b \<and> mem = 0) \<and>
   (memcpyGCRefs b h dest src len = Inl AssertFailed \<longleftrightarrow> DEBUG b \<and> (dest = 0 \<or> src = 0)) \<and>
   (memcpyGCRefsWithWriteBarrier b h dest src len = Inl AssertFailed \<longleftrightarrow>
      DEBUG b \<and> (dest = 0 \<or> src = 0)) \<and>
   RhBulkMoveWithWriteBarrier b h dest src cbDest \<noteq> Inl AssertFailed \<and>
   GCSafeZeroMemory b h dest len \<noteq> Inl AssertFailed \<and>
   GCSafeCopyMemoryWithWriteBarrier b h dest src len \<noteq> Inl AssertFailed \<and>
   RhpBulkWriteBarrier h dest len \<noteq> Inl AssertFailed"
  by (auto simp: RhpInitMultibyte_def memcpyGCRefs_def memcpyGCRefsWithWriteBarrier_def
      RhBulkMoveWithWriteBarrier_def GCSafeZeroMemory_def GCSafeCopyMemoryWithWriteBarrier_def
      RhpBulkWriteBarrier_def Let_def)

theorem null_assertions_by_entry_point_witness:
  "RhpInitMultibyte debug64 numbered 0 0 8 = Inl AssertFailed \<and>
   memcpyGCRefs debug64 numbered 8 0 8 = Inl AssertFailed \<and>
   memcpyGCRefsWithWriteBarrier debug64 numbered 0 8 8 = Inl AssertFailed \<and>
   RhpInitMultibyte release64 numbered 0 0 8 \<noteq> Inl AssertFailed \<and>
   RhBulkMoveWithWriteBarrier debug64 numbered 0 8 8 \<noteq> Inl AssertFailed"
  using null_assertions_by_entry_point [of debug64 numbered 0 0 8 8 0 8]
    null_assertions_by_entry_point [of debug64 numbered 0 0 8 0 8 8]
    null_assertions_by_entry_point [of release64 numbered 0 0 8 0 8 8]
  by (simp add: debug64_def release64_def)

text \<open>
  C9 as stated fails for RhBulkMoveWithWriteBarrier: in a debug build a move of no
  bytes between null pointers runs to its end.
\<close>

theorem move_of_null_in_debug_build_does_not_abort:
  "\<exists>h'. RhBulkMoveWithWriteBarrier debug64 numbered 0 0 0 = Inr h' \<and>
     memory h' = memory numbered"
  using memory_RhBulkMove [of debug64 0 0 numbered 0]
  by (simp add: valid_build_def debug64_def)

text \<open>
  C10. RhpInitMultibyte depends on its \<open>int\<close> argument only through the low eight
  bits: filling with \<open>c\<close> and filling with \<open>c mod 256\<close> give the same result. The
  pattern that it hands to the fill has each of its POINTER_SIZE bytes equal to
  \<open>(UInt8)c\<close> and is the zero word when \<open>c mod 256 = 0\<close>, and the call leaves every
  byte of a non-null range holding the low eight bits of \<open>c\<close>.
\<close>

theorem fill_depends_on_low_byte:
  assumes "valid_build b"
  shows "RhpInitMultibyte b h mem c len = RhpInitMultibyte b h mem (c mod 256) len \<and>
         (\<exists>pv. (\<forall>i<POINTER_SIZE b.
                  word_bytes (POINTER_SIZE b) pv ! i = (word_of_int c :: byte)) \<and>
               (c mod 256 = 0 \<longrightarrow> pv = 0) \<and>
               RhpInitMultibyte b h mem c len =
                 (if DEBUG b \<and> mem = 0 then Inl AssertFailed
                  else Inr (InlineGCSafeFillMemory b h mem len pv, mem))) \<and>
         (mem \<noteq> 0 \<longrightarrow>
            (\<exists>h'. RhpInitMultibyte b h mem c len = Inr (h', mem) \<and>
               (\<forall>x. mem \<le> x \<and> x < mem + len \<longrightarrow>
                  memory h' x = (word_of_int (c mod 256) :: byte))))"
proof (intro conjI impI)
  show "RhpInitMultibyte b h mem c len = RhpInitMultibyte b h mem (c mod 256) len"
    by (simp add: RhpInitMultibyte_def fill_pattern_mod)
  have "(\<forall>i<POINTER_SIZE b.
            word_bytes (POINTER_SIZE b) (fill_pattern b c) ! i = (word_of_int c :: byte)) \<and>
        (c mod 256 = 0 \<longrightarrow> fill_pattern b c = 0) \<and>
        RhpInitMultibyte b h mem c len =
          (if DEBUG b \<and> mem = 0 then Inl AssertFailed
           else Inr (InlineGCSafeFillMemory b h mem len (fill_pattern b c), mem))"
    using assms by (simp add: RhpInitMultibyte_def fill_pattern_bytes fill_pattern_zero)
  then show "\<exists>pv. (\<forall>i<POINTER_SIZE b.
                  word_bytes (POINTER_SIZE b) pv ! i = (word_of_int c :: byte)) \<and>
               (c mod 256 = 0 \<longrightarrow> pv = 0) \<and>
               RhpInitMultibyte b h mem c len =
                 (if DEBUG b \<and> mem = 0 then Inl AssertFailed
                  else Inr (InlineGCSafeFillMemory b h mem len pv, mem))"
    by (rule exI)
next
  assume "mem \<noteq> 0"
  then obtain h' where "RhpInitMultibyte b h mem c len = Inr (h', mem)"
    "memory h' = filled (memory h) mem len (word_of_int c)"
    using memory_RhpInitMultibyte [of b mem h c len] assms by blast
  then show "\<exists>h'. RhpInitMultibyte b h mem c len = Inr (h', mem) \<and>
               (\<forall>x. mem \<le> x \<and> x < mem + len \<longrightarrow>
                  memory h' x = (word_of_int (c mod 256) :: byte))"
    by (simp add: filled_def word_of_int_mod_256)
qed

theorem fill_depends_on_low_byte_witness:
  "RhpInitMultibyte release64 numbered 3 (-1) 20 = RhpInitMultibyte release64 numbered 3 255 20 \<and>
   (\<exists>pv. word_bytes 8 pv ! 5 = (255 :: byte) \<and>
      RhpInitMultibyte release64 numbered 3 (-1) 20 =
        Inr (InlineGCSafeFillMemory release64 numbered 3 20 pv, 3)) \<and>
   (\<exists>h'. RhpInitMultibyte release64 numbered 3 (-1) 20 = Inr (h', 3) \<and>
      memory h' 3 = 255 \<and> memory h' 22 = 255) \<and>
   RhpInitMultibyte release64 numbered 3 512 20 =
     Inr (InlineGCSafeFillMemory release64 numbered 3 20 0, 3)"
proof -
  have vb: "valid_build release64" and ps: "POINTER_SIZE release64 = 8"
    and rel: "\<not> DEBUG release64"
    by (simp_all add: valid_build_def release64_def)
  note A = fill_depends_on_low_byte [OF vb, of numbered 3 "-1" 20]
  note B = fill_depends_on_low_byte [OF vb, of numbered 3 512 20]
  note A1 = A [THEN conjunct1]
  note A2 = A [THEN conjunct2, THEN conjunct1]
  note A3 = A [THEN conjunct2, THEN conjunct2]
  note B2 = B [THEN conjunct2, THEN conjunct1]
  from A1 have 1: "RhpInitMultibyte release64 numbered 3 (-1) 20 =
      RhpInitMultibyte release64 numbered 3 255 20"
    by simp
  from A2 obtain pv where pv:
    "\<forall>i<POINTER_SIZE release64.
       word_bytes (POINTER_SIZE release64) pv ! i = (word_of_int (- 1) :: byte)"
    "RhpInitMultibyte release64 numbered 3 (- 1) 20 =
       (if DEBUG release64 \<and> (3::nat) = 0 then Inl AssertFailed
        else Inr (InlineGCSafeFillMemory release64 numbered 3 20 pv, 3))"
    by blast
  from pv(1) have "word_bytes 8 pv ! 5 = (255 :: byte)" by (simp add: ps)
  moreover from pv(2) have "RhpInitMultibyte release64 numbered 3 (- 1) 20 =
      Inr (InlineGCSafeFillMemory release64 numbered 3 20 pv, 3)"
    by simp
  ultimately have 2: "\<exists>pv. word_bytes 8 pv ! 5 = (255 :: byte) \<and>
      RhpInitMultibyte release64 numbered 3 (-1) 20 =
        Inr (InlineGCSafeFillMemory release64 numbered 3 20 pv, 3)"
    by blast
  from A3 obtain h' where h': "RhpInitMultibyte release64 numbered 3 (- 1) 20 = Inr (h', 3)"
    "\<forall>x. 3 \<le> x \<and> x < 3 + 20 \<longrightarrow> memory h' x = (word_of_int (- 1 mod 256) :: byte)"
    by auto
  from h'(2) have "memory h' 3 = 255" "memory h' 22 = 255" by simp_all
  with h'(1) have 3: "\<exists>h'. RhpInitMultibyte release64 numbered 3 (-1) 20 = Inr (h', 3) \<and>
      memory h' 3 = 255 \<and> memory h' 22 = 255"
    by blast
  from B2 obtain pv0 where pv0: "512 mod 256 = (0::int) \<longrightarrow> pv0 = (0::nat)"
    "RhpInitMultibyte release64 numbered 3 512 20 =
       (if DEBUG release64 \<and> (3::nat) = 0 then Inl AssertFailed
        else Inr (InlineGCSafeFillMemory release64 numbered 3 20 pv0, 3))"
    by blast
  from pv0(1) have "pv0 = 0" by simp
  with pv0(2) have 4: "RhpInitMultibyte release64 numbered 3 512 20 =
      Inr (InlineGCSafeFillMemory release64 numbered 3 20 0, 3)"
    by simp
  from 1 2 3 4 show ?thesis by blast
qed

end
